theory Spec2Isabelle
  imports Complex_Main "HOL-Library.AList" "HOL-Library.Sublist"
begin

section \<open>The event bus (class EventBus of SaltyIRS.js)\<close>

text \<open>
  Handlers are JavaScript closures. A closure is identified by a handler id (its reference
  identity, which is what \<^verbatim>\<open>indexOf\<close> compares); what it does when called is given by
  an interpretation \<open>call\<close>, a parameter of every operation that invokes handlers. A call
  either does not finish (\<open>None\<close>), or finishes with the state it leaves behind and with the
  exception it threw, if any. Every call out of the bus (a handler invocation, a line on the
  console, a message handed to the synchronisation transport) is appended to the field
  \<open>trace\<close> of the state, so that orders of invocation can be stated.
\<close>

type_synonym topic = string
type_synonym hid = nat

datatype exn =
    Thrown string   \<comment> \<open>an exception thrown by the body of a handler\<close>
  | TypeError       \<comment> \<open>calling \<^verbatim>\<open>undefined\<close>: an array read past the end, then applied\<close>
  | SyntaxError     \<comment> \<open>\<^verbatim>\<open>JSON.parse\<close> on a malformed text\<close>

text \<open>The arguments a handler receives: \<^verbatim>\<open>handlers[i](data)\<close> or
  \<^verbatim>\<open>_wildcardHandlers[i](topic, data)\<close>.\<close>

datatype 'd args = Direct 'd | Wildcard topic 'd

text \<open>The object \<^verbatim>\<open>{ data: data, synced: sync }\<close> kept in \<^verbatim>\<open>_eventCache\<close>.\<close>

record 'd cached_event =
  data :: 'd
  synced :: bool

text \<open>The message of the Coherent transport:
  \<^verbatim>\<open>{ topic, data, isCached, busId: this.busId, evtNum: this.evtNum++ }\<close>.\<close>

datatype 'd coherent_msg =
  CoherentMsg (m_topic: topic) (m_data: 'd) (m_isCached: bool) (m_busId: int) (m_evtNum: int)

datatype 'd event =
    Invoked hid "'d args"          \<comment> \<open>a handler is called with these arguments\<close>
  | ConsoleError exn               \<comment> \<open>\<^verbatim>\<open>console.error\<close> in a catch block\<close>
  | SetItem string string          \<comment> \<open>\<^verbatim>\<open>localStorage.setItem(key, value)\<close>\<close>
  | RemoveItem string              \<comment> \<open>\<^verbatim>\<open>localStorage.removeItem(key)\<close>\<close>
  | Triggered "'d coherent_msg"    \<comment> \<open>\<^verbatim>\<open>listener.triggerToAllSubscribers\<close>\<close>

text \<open>
  What the storage adapter uses of its host: \<^verbatim>\<open>JSON.stringify\<close> and \<^verbatim>\<open>JSON.parse\<close>, which
  may throw, the value \<^verbatim>\<open>undefined\<close> among the data, and \<^verbatim>\<open>localStorage.setItem\<close>, which
  may throw too (a full storage). They are parameters of the model.
\<close>

record 'd globals =
  JSON_stringify :: "'d \<Rightarrow> exn + string"
  JSON_parse :: "string \<Rightarrow> exn + 'd"
  undefined_value :: 'd
  setItem :: "string \<Rightarrow> string \<Rightarrow> exn option"

text \<open>The two synchronisation adapters, with their fields. The Coherent adapter holds its
  \<^verbatim>\<open>listener\<close>, of which \<^verbatim>\<open>triggerToAllSubscribers\<close> is called: a function of the host, which
  returns or throws. The storage adapter is given the globals it reads.\<close>

datatype 'd busSync =
    EventBusStorageSync (busId: int) (globals: "'d globals")
  | EventBusCoherentSync (busId: int) (evtNum: int) (lastEventSynced: int)
      (listener: "'d coherent_msg \<Rightarrow> exn option")

text \<open>
  \<^verbatim>\<open>_topicHandlersMap\<close> is a Map from topic to an array of handlers; an entry is created by
  the first \<^verbatim>\<open>on\<close> and never replaced afterwards, so the array a dispatch loop holds is
  always the one the map holds. \<^verbatim>\<open>_eventCache\<close> is a Map, iterated in insertion order by
  \<^verbatim>\<open>resyncEvents\<close>: an association list, written with \<open>AList.update\<close> (in place for a
  key that is present, at the end otherwise).
\<close>

record 'd EventBus =
  topicHandlersMap :: "topic \<rightharpoonup> hid list"
  wildcardHandlers :: "hid list"
  eventCache :: "(topic \<times> 'd cached_event) list"
  busSync :: "'d busSync"
  trace :: "'d event list"

type_synonym 'd result = "(exn option \<times> 'd EventBus) option"
type_synonym 'd caller = "hid \<Rightarrow> 'd args \<Rightarrow> 'd EventBus \<Rightarrow> 'd result"

definition emit :: "'d event \<Rightarrow> 'd EventBus \<Rightarrow> 'd EventBus" where
  "emit e w = w\<lparr>trace := trace w @ [e]\<rparr>"

text \<open>\<^verbatim>\<open>arr[i](...)\<close>: the element is read when the call is made; past the end of the array it
  is \<^verbatim>\<open>undefined\<close> and the call throws a TypeError.\<close>

definition call_at :: "'d caller \<Rightarrow> hid list \<Rightarrow> nat \<Rightarrow> 'd args \<Rightarrow> 'd EventBus \<Rightarrow> 'd result" where
  "call_at call hs i a w =
     (if i < length hs then call (hs ! i) a (emit (Invoked (hs ! i) a) w)
      else Some (Some TypeError, w))"

definition handlers_of :: "'d EventBus \<Rightarrow> topic \<Rightarrow> hid list" where
  "handlers_of w topic = (case topicHandlersMap w topic of None \<Rightarrow> [] | Some hs \<Rightarrow> hs)"

subsection \<open>The synchronisation adapters: sendEvent\<close>

definition EB_KEY :: string where
  "EB_KEY = ''eb.evt''"

definition EMPTY_DATA :: string where
  "EMPTY_DATA = ''{}''"

text \<open>
  The text the storage adapter writes,
  \<^verbatim>\<open>`${topic.toString()},${data !== undefined ? JSON.stringify(data) : EMPTY_DATA}`\<close>;
  building it throws when \<^verbatim>\<open>JSON.stringify\<close> does.
\<close>

definition storage_payload :: "'d globals \<Rightarrow> topic \<Rightarrow> 'd \<Rightarrow> exn + string" where
  "storage_payload g topic d =
     (case (if d \<noteq> undefined_value g then JSON_stringify g d else Inr EMPTY_DATA) of
        Inl error \<Rightarrow> Inl error
      | Inr text \<Rightarrow> Inr (topic @ '','' @ text))"

text \<open>
  \<^verbatim>\<open>EventBusStorageSync.sendEvent(topic, data)\<close> ignores the third argument it is given, sets
  the item and removes it again. \<^verbatim>\<open>EventBusCoherentSync.sendEvent(topic, data, isCached)\<close>
  numbers the message with \<^verbatim>\<open>this.evtNum++\<close> and triggers it. Neither has a try block:
  what the host throws leaves \<^verbatim>\<open>sendEvent\<close>. What the transports deliver comes back through
  \<^verbatim>\<open>receiveEvent\<close> below.
\<close>

definition sendEvent :: "topic \<Rightarrow> 'd \<Rightarrow> bool \<Rightarrow> 'd EventBus \<Rightarrow> exn option \<times> 'd EventBus" where
  "sendEvent topic d isCached w =
     (case busSync w of
        EventBusStorageSync bid g \<Rightarrow>
          (case storage_payload g topic d of
             Inl error \<Rightarrow> (Some error, w)
           | Inr text \<Rightarrow>
               (case setItem g EB_KEY text of
                  Some error \<Rightarrow> (Some error, emit (SetItem EB_KEY text) w)
                | None \<Rightarrow> (None, emit (RemoveItem EB_KEY) (emit (SetItem EB_KEY text) w))))
      | EventBusCoherentSync bid n les lsn \<Rightarrow>
          (lsn (CoherentMsg topic d isCached bid n),
           emit (Triggered (CoherentMsg topic d isCached bid n))
             (w\<lparr>busSync := EventBusCoherentSync bid (n + 1) les lsn\<rparr>)))"

definition syncEvent :: "topic \<Rightarrow> 'd \<Rightarrow> bool \<Rightarrow> 'd EventBus \<Rightarrow> exn option \<times> 'd EventBus" where
  "syncEvent topic d isCached w = sendEvent topic d isCached w"

fun resync_loop :: "(topic \<times> 'd cached_event) list \<Rightarrow> 'd EventBus \<Rightarrow> exn option \<times> 'd EventBus" where
  "resync_loop [] w = (None, w)"
| "resync_loop ((topic, ev) # rest) w =
     (if synced ev then
        (case syncEvent topic (data ev) True w of
           (None, w') \<Rightarrow> resync_loop rest w'
         | (Some error, w') \<Rightarrow> (Some error, w'))
      else resync_loop rest w)"

definition resyncEvents :: "'d EventBus \<Rightarrow> exn option \<times> 'd EventBus" where
  "resyncEvents w = resync_loop (eventCache w) w"

subsection \<open>on, off, onAll, offAll\<close>

definition EventBus_on :: "'d caller \<Rightarrow> topic \<Rightarrow> hid \<Rightarrow> 'd EventBus \<Rightarrow> 'd result" where
  "EventBus_on call topic handler w =
     (let w1 = (case topicHandlersMap w topic of
                  Some handlers \<Rightarrow> w\<lparr>topicHandlersMap := (topicHandlersMap w)(topic \<mapsto> handlers @ [handler])\<rparr>
                | None \<Rightarrow> w\<lparr>topicHandlersMap := (topicHandlersMap w)(topic \<mapsto> [handler])\<rparr>)
      in case map_of (eventCache w1) topic of
           Some lastState \<Rightarrow> call handler (Direct (data lastState)) (emit (Invoked handler (Direct (data lastState))) w1)
         | None \<Rightarrow> Some (None, w1))"

text \<open>\<^verbatim>\<open>handlers.splice(handlers.indexOf(handler) >>> 0, 1)\<close>: the first match is removed; when
  there is none the index is \<open>2^32 - 1\<close>, past the end, and nothing is removed.\<close>

definition EventBus_off :: "topic \<Rightarrow> hid \<Rightarrow> 'd EventBus \<Rightarrow> 'd EventBus" where
  "EventBus_off topic handler w =
     (case topicHandlersMap w topic of
        Some handlers \<Rightarrow> w\<lparr>topicHandlersMap := (topicHandlersMap w)(topic \<mapsto> remove1 handler handlers)\<rparr>
      | None \<Rightarrow> w)"

definition onAll :: "hid \<Rightarrow> 'd EventBus \<Rightarrow> 'd EventBus" where
  "onAll handler w = w\<lparr>wildcardHandlers := wildcardHandlers w @ [handler]\<rparr>"

definition offAll :: "hid \<Rightarrow> 'd EventBus \<Rightarrow> 'd EventBus" where
  "offAll handler w = w\<lparr>wildcardHandlers := remove1 handler (wildcardHandlers w)\<rparr>"

subsection \<open>pub\<close>

text \<open>
  The loop over the direct handlers: \<^verbatim>\<open>len\<close> is fixed before the loop, the array is read at
  every step, and the call sits in a try block whose catch writes the error to the console.
\<close>

function pub_handlers :: "'d caller \<Rightarrow> topic \<Rightarrow> 'd \<Rightarrow> nat \<Rightarrow> nat \<Rightarrow> 'd EventBus \<Rightarrow> 'd EventBus option" where
  "pub_handlers call topic d i len w =
     (if i < len then
        (case call_at call (handlers_of w topic) i (Direct d) w of
           None \<Rightarrow> None
         | Some (None, w') \<Rightarrow> pub_handlers call topic d (Suc i) len w'
         | Some (Some error, w') \<Rightarrow> pub_handlers call topic d (Suc i) len (emit (ConsoleError error) w'))
      else Some w)"
  by pat_completeness auto
termination
  by (relation "measure (\<lambda>(call, topic, d, i, len, w). len - i)") auto

declare pub_handlers.simps [simp del]

text \<open>The loop over the wildcard handlers has no try block: the first exception leaves the
  loop and \<^verbatim>\<open>pub\<close>.\<close>

function pub_wildcards :: "'d caller \<Rightarrow> topic \<Rightarrow> 'd \<Rightarrow> nat \<Rightarrow> nat \<Rightarrow> 'd EventBus \<Rightarrow> 'd result" where
  "pub_wildcards call topic d i wcLen w =
     (if i < wcLen then
        (case call_at call (wildcardHandlers w) i (Wildcard topic d) w of
           None \<Rightarrow> None
         | Some (None, w') \<Rightarrow> pub_wildcards call topic d (Suc i) wcLen w'
         | Some (Some error, w') \<Rightarrow> Some (Some error, w'))
      else Some (None, w))"
  by pat_completeness auto
termination
  by (relation "measure (\<lambda>(call, topic, d, i, wcLen, w). wcLen - i)") auto

declare pub_wildcards.simps [simp del]

definition pub :: "'d caller \<Rightarrow> topic \<Rightarrow> 'd \<Rightarrow> bool \<Rightarrow> bool \<Rightarrow> 'd EventBus \<Rightarrow> 'd result" where
  "pub call topic d sync isCached w =
     (let w1 = (if isCached
                then w\<lparr>eventCache := AList.update topic \<lparr>data = d, synced = sync\<rparr> (eventCache w)\<rparr>
                else w)
      in case (case topicHandlersMap w1 topic of
                 Some handlers \<Rightarrow> pub_handlers call topic d 0 (length handlers) w1
               | None \<Rightarrow> Some w1) of
           None \<Rightarrow> None
         | Some w2 \<Rightarrow>
             (if sync then
                (case syncEvent topic d isCached w2 of
                   (Some error, w3) \<Rightarrow> Some (Some error, w3)
                 | (None, w3) \<Rightarrow> pub_wildcards call topic d 0 (length (wildcardHandlers w3)) w3)
              else pub_wildcards call topic d 0 (length (wildcardHandlers w2)) w2))"

text \<open>\<^verbatim>\<open>pub(topic, data, sync = false, isCached = true)\<close> as the adapters call it through
  \<^verbatim>\<open>recvEventCb\<close>: an argument that is absent or \<^verbatim>\<open>undefined\<close> takes its default.\<close>

definition recvEventCb :: "'d caller \<Rightarrow> topic \<Rightarrow> 'd \<Rightarrow> bool option \<Rightarrow> bool option \<Rightarrow> 'd EventBus \<Rightarrow> 'd result" where
  "recvEventCb call topic d sync isCached w =
     pub call topic d (case sync of None \<Rightarrow> False | Some b \<Rightarrow> b)
                      (case isCached of None \<Rightarrow> True | Some b \<Rightarrow> b) w"

subsection \<open>The synchronisation adapters: receiveEvent\<close>

text \<open>
  \<^verbatim>\<open>EventBusCoherentSync.receiveEvent(e)\<close>: a message of this bus is dropped, and so is one
  whose number is the number of the last message taken; any other one is handed to
  \<^verbatim>\<open>recvEventCb(e.topic, e.data, undefined, e.isCached)\<close>. The method belongs to the
  Coherent adapter; on a bus with the other adapter it is never registered, and the model
  leaves the state alone.
\<close>

definition Coherent_receiveEvent :: "'d caller \<Rightarrow> 'd coherent_msg \<Rightarrow> 'd EventBus \<Rightarrow> 'd result" where
  "Coherent_receiveEvent call e w =
     (case busSync w of
        EventBusCoherentSync bid n les lsn \<Rightarrow>
          if m_busId e = bid then Some (None, w)
          else if les \<noteq> m_evtNum e
          then recvEventCb call (m_topic e) (m_data e) None (Some (m_isCached e))
                 (w\<lparr>busSync := EventBusCoherentSync bid n (m_evtNum e) lsn\<rparr>)
          else Some (None, w)
      | EventBusStorageSync bid g \<Rightarrow> Some (None, w))"

text \<open>
  \<^verbatim>\<open>EventBusStorageSync.receiveEvent(e)\<close>: an event for the key eb.evt with a new value that
  is neither \<^verbatim>\<open>null\<close> nor empty is cut at every comma (\<^verbatim>\<open>String.split(',')\<close>); the first
  piece is the topic; a second piece is parsed, and a SyntaxError of \<^verbatim>\<open>JSON.parse\<close> leaves
  the method before anything is published; the call is
  \<^verbatim>\<open>recvEventCb(val[0], ..., true)\<close>, the \<^verbatim>\<open>true\<close> in the place of \<^verbatim>\<open>sync\<close>. The method
  belongs to the storage adapter; on a bus with the other adapter it is never registered.
\<close>

fun split :: "char \<Rightarrow> string \<Rightarrow> string list" where
  "split c [] = [[]]"
| "split c (x # xs) =
     (if x = c then [] # split c xs
      else (case split c xs of [] \<Rightarrow> [[x]] | p # ps \<Rightarrow> (x # p) # ps))"

record storage_event =
  key :: "string option"        \<comment> \<open>\<^verbatim>\<open>null\<close> is \<open>None\<close>\<close>
  newValue :: "string option"

definition Storage_receiveEvent :: "'d caller \<Rightarrow> storage_event \<Rightarrow> 'd EventBus \<Rightarrow> 'd result" where
  "Storage_receiveEvent call e w =
     (case busSync w of
        EventBusStorageSync bid g \<Rightarrow>
          (case newValue e of
             None \<Rightarrow> Some (None, w)
           | Some text \<Rightarrow>
               if key e = Some EB_KEY \<and> text \<noteq> [] then
                 (let val = split CHR '','' text
                  in if length val > 1
                     then (case JSON_parse g (val ! 1) of
                             Inl error \<Rightarrow> Some (Some error, w)
                           | Inr v \<Rightarrow> recvEventCb call (val ! 0) v (Some True) None w)
                     else recvEventCb call (val ! 0) (undefined_value g) (Some True) None w)
               else Some (None, w))
      | EventBusCoherentSync bid n les lsn \<Rightarrow> Some (None, w))"

subsection \<open>Handlers that call back into the bus\<close>

text \<open>
  The body of a handler, as far as the bus can tell: a sequence of calls into the bus, and
  possibly a throw, which ends it. \<open>env h a\<close> is the body of the handler \<open>h\<close> called with the
  arguments \<open>a\<close>. \<open>invoke n env\<close> interprets handlers to a nesting depth of \<open>n\<close> calls; a
  deeper nesting does not finish.
\<close>

datatype 'd cmd =
    Throw exn
  | On topic hid
  | Off topic hid
  | OnAll hid
  | OffAll hid
  | Pub topic 'd bool bool
  | ResyncEvents

fun exec_cmd :: "'d caller \<Rightarrow> 'd cmd \<Rightarrow> 'd EventBus \<Rightarrow> 'd result" where
  "exec_cmd call (Throw error) w = Some (Some error, w)"
| "exec_cmd call (On topic h) w = EventBus_on call topic h w"
| "exec_cmd call (Off topic h) w = Some (None, EventBus_off topic h w)"
| "exec_cmd call (OnAll h) w = Some (None, onAll h w)"
| "exec_cmd call (OffAll h) w = Some (None, offAll h w)"
| "exec_cmd call (Pub topic d sync isCached) w = pub call topic d sync isCached w"
| "exec_cmd call ResyncEvents w = Some (resyncEvents w)"

fun exec_cmds :: "'d caller \<Rightarrow> 'd cmd list \<Rightarrow> 'd EventBus \<Rightarrow> 'd result" where
  "exec_cmds call [] w = Some (None, w)"
| "exec_cmds call (c # cs) w =
     (case exec_cmd call c w of
        None \<Rightarrow> None
      | Some (None, w') \<Rightarrow> exec_cmds call cs w'
      | Some (Some error, w') \<Rightarrow> Some (Some error, w'))"

primrec invoke :: "nat \<Rightarrow> (hid \<Rightarrow> 'd args \<Rightarrow> 'd cmd list) \<Rightarrow> 'd caller" where
  "invoke 0 env = (\<lambda>h a w. None)"
| "invoke (Suc n) env = (\<lambda>h a w. exec_cmds (invoke n env) (env h a) w)"

subsection \<open>Vocabulary for traces\<close>

text \<open>The part of the trace written by the loop over the direct handlers \<open>hs\<close>, when the
  handler \<open>h\<close> ends as \<open>out h\<close> says: each call, followed by the console line of its catch
  block when it threw.\<close>

definition direct_trace :: "(hid \<Rightarrow> exn option) \<Rightarrow> 'd \<Rightarrow> hid list \<Rightarrow> 'd event list" where
  "direct_trace out d hs =
     concat (map (\<lambda>h. Invoked h (Direct d) # (case out h of None \<Rightarrow> [] | Some e \<Rightarrow> [ConsoleError e])) hs)"

text \<open>\<open>send_accepted a topic d isCached\<close>: \<^verbatim>\<open>sendEvent(topic, d, isCached)\<close> of the adapter \<open>a\<close>
  returns, the host throwing nothing. \<open>sync_events a topic d isCached\<close>: the calls to the
  host it then makes.\<close>

definition send_accepted :: "'d busSync \<Rightarrow> topic \<Rightarrow> 'd \<Rightarrow> bool \<Rightarrow> bool" where
  "send_accepted a topic d isCached =
     (case a of
        EventBusStorageSync bid g \<Rightarrow>
          (case storage_payload g topic d of Inl error \<Rightarrow> False | Inr text \<Rightarrow> setItem g EB_KEY text = None)
      | EventBusCoherentSync bid n les lsn \<Rightarrow> lsn (CoherentMsg topic d isCached bid n) = None)"

definition sync_events :: "'d busSync \<Rightarrow> topic \<Rightarrow> 'd \<Rightarrow> bool \<Rightarrow> 'd event list" where
  "sync_events a topic d isCached =
     (case a of
        EventBusStorageSync bid g \<Rightarrow>
          (case storage_payload g topic d of
             Inl error \<Rightarrow> []
           | Inr text \<Rightarrow> [SetItem EB_KEY text, RemoveItem EB_KEY])
      | EventBusCoherentSync bid n les lsn \<Rightarrow> [Triggered (CoherentMsg topic d isCached bid n)])"

subsection \<open>A bus used in examples\<close>

text \<open>Three handlers on the topic t, two wildcard handlers, the Coherent adapter; the handler 2
  throws, the others return.\<close>

definition example_env :: "hid \<Rightarrow> int args \<Rightarrow> int cmd list" where
  "example_env h a = (if h = 2 then [Throw (Thrown ''boom'')] else [])"

definition example_bus :: "int EventBus" where
  "example_bus =
     \<lparr>topicHandlersMap = [''t'' \<mapsto> [1, 2, 3]], wildcardHandlers = [7, 8], eventCache = [],
      busSync = EventBusCoherentSync 42 0 (- 1) (\<lambda>msg. None), trace = []\<rparr>"

text \<open>The same bus with handlers of which the wildcard handler 7 throws.\<close>

definition faulty_env :: "hid \<Rightarrow> int args \<Rightarrow> int cmd list" where
  "faulty_env h a = (if h = 7 then [Throw (Thrown ''boom'')] else [])"

text \<open>A handler 1 that, when called, unregisters the handler 2 and registers the handler 9, on
  the topic t or as wildcard handlers according to how it was called.\<close>

definition swapping_env :: "hid \<Rightarrow> int args \<Rightarrow> int cmd list" where
  "swapping_env h a =
     (if h = 1 then (case a of Direct d \<Rightarrow> [Off ''t'' 2, On ''t'' 9]
                             | Wildcard topic d \<Rightarrow> [OffAll 2, OnAll 9])
      else [])"

text \<open>A handler 1 that registers the handler 9, on the topic t and as a wildcard handler, when
  called.\<close>

definition adding_env :: "hid \<Rightarrow> int args \<Rightarrow> int cmd list" where
  "adding_env h a = (if h = 1 then [On ''t'' 9, OnAll 9] else [])"

text \<open>A handler 1 that unregisters itself when called.\<close>

definition one_shot_env :: "hid \<Rightarrow> int args \<Rightarrow> int cmd list" where
  "one_shot_env h a = (if h = 1 then [Off ''t'' 1] else [])"

text \<open>A bus with the storage adapter, and the part of JSON the examples need; the datum
  \<open>None\<close> is \<^verbatim>\<open>undefined\<close>, and the storage takes every item.\<close>

definition example_globals :: "int option globals" where
  "example_globals =
     \<lparr>JSON_stringify = (\<lambda>d. if d = Some 1 then Inr ''1'' else Inr ''0''),
      JSON_parse = (\<lambda>s. if s = ''1'' then Inr (Some 1) else if s = ''0'' then Inr (Some 0)
                         else Inl SyntaxError),
      undefined_value = None,
      setItem = (\<lambda>k v. None)\<rparr>"

definition storage_bus :: "int option EventBus" where
  "storage_bus =
     \<lparr>topicHandlersMap = [''x'' \<mapsto> [1]], wildcardHandlers = [], eventCache = [],
      busSync = EventBusStorageSync 42 example_globals, trace = []\<rparr>"

definition returning_env :: "hid \<Rightarrow> int option args \<Rightarrow> int option cmd list" where
  "returning_env h a = []"

subsection \<open>Dispatch over a snapshot\<close>

text \<open>
  The specification's reading of a dispatch, for comparison with the two loop functions above: ``handlers
  are dispatched over a snapshotted listener list'', the list as it was when the loop began.
  \<open>pub_snapshot\<close> is \<open>pub\<close> with each loop replaced.
\<close>

fun dispatch_snapshot :: "'d caller \<Rightarrow> 'd \<Rightarrow> hid list \<Rightarrow> 'd EventBus \<Rightarrow> 'd EventBus option" where
  "dispatch_snapshot call d [] w = Some w"
| "dispatch_snapshot call d (h # hs) w =
     (case call h (Direct d) (emit (Invoked h (Direct d)) w) of
        None \<Rightarrow> None
      | Some (None, w') \<Rightarrow> dispatch_snapshot call d hs w'
      | Some (Some error, w') \<Rightarrow> dispatch_snapshot call d hs (emit (ConsoleError error) w'))"

fun wildcard_snapshot :: "'d caller \<Rightarrow> topic \<Rightarrow> 'd \<Rightarrow> hid list \<Rightarrow> 'd EventBus \<Rightarrow> 'd result" where
  "wildcard_snapshot call topic d [] w = Some (None, w)"
| "wildcard_snapshot call topic d (h # hs) w =
     (case call h (Wildcard topic d) (emit (Invoked h (Wildcard topic d)) w) of
        None \<Rightarrow> None
      | Some (None, w') \<Rightarrow> wildcard_snapshot call topic d hs w'
      | Some (Some error, w') \<Rightarrow> Some (Some error, w'))"

definition pub_snapshot :: "'d caller \<Rightarrow> topic \<Rightarrow> 'd \<Rightarrow> bool \<Rightarrow> bool \<Rightarrow> 'd EventBus \<Rightarrow> 'd result" where
  "pub_snapshot call topic d sync isCached w =
     (let w1 = (if isCached
                then w\<lparr>eventCache := AList.update topic \<lparr>data = d, synced = sync\<rparr> (eventCache w)\<rparr>
                else w)
      in case dispatch_snapshot call d (handlers_of w1 topic) w1 of
           None \<Rightarrow> None
         | Some w2 \<Rightarrow>
             (if sync then
                (case syncEvent topic d isCached w2 of
                   (Some error, w3) \<Rightarrow> Some (Some error, w3)
                 | (None, w3) \<Rightarrow> wildcard_snapshot call topic d (wildcardHandlers w3) w3)
              else wildcard_snapshot call topic d (wildcardHandlers w2) w2))"

section \<open>Subscribables (AbstractSubscribable, Subject, MappedSubject, ComputedSubject)\<close>

text \<open>
  Subscribables are objects that refer to each other (a MappedSubject holds its inputs, and
  its bound \<^verbatim>\<open>updateValue\<close> functions sit in the subscriber arrays of those inputs), so they
  live in a store, addressed by reference. A subscriber is either a closure of the
  surrounding program, identified as before, or the function
  \<^verbatim>\<open>updateValue.bind(m, index)\<close> that the constructor of the MappedSubject \<open>m\<close> made.
  The fields \<^verbatim>\<open>value\<close>, \<^verbatim>\<open>_subs\<close>, \<^verbatim>\<open>_value\<close> and \<^verbatim>\<open>_computedValue\<close> carry a
  prefix here, as do the fields two classes share.
\<close>

type_synonym sid = nat

datatype handler = Ext hid | UpdateValue sid nat

record 'v Subject =
  subs :: "handler list"
  s_value :: 'v
  equalityFunc :: "'v \<Rightarrow> 'v \<Rightarrow> bool"
  mutateFunc :: "('v \<Rightarrow> 'v \<Rightarrow> 'v) option"   \<comment> \<open>\<open>None\<close>: not given. It changes the object held
      in \<^verbatim>\<open>value\<close> in place; the model returns the new content.\<close>

record 'v MappedSubject =
  m_subs :: "handler list"
  mapFunc :: "'v list \<Rightarrow> 'v option \<Rightarrow> 'v"     \<comment> \<open>the second argument is \<^verbatim>\<open>undefined\<close> in the constructor\<close>
  m_equalityFunc :: "'v \<Rightarrow> 'v \<Rightarrow> bool"
  inputs :: "sid list"
  inputValues :: "'v list"
  m_value :: 'v
  m_mutateFunc :: "('v \<Rightarrow> 'v \<Rightarrow> 'v) option"  \<comment> \<open>\<open>None\<close>: \<^verbatim>\<open>this.value = newVal\<close>\<close>
  inputHandlers :: "handler list"

record 'v ComputedSubject =
  computeFn :: "'v \<Rightarrow> 'v"
  c_subs :: "handler list"
  c_value :: 'v
  c_computedValue :: 'v

datatype 'v obj =
    SubjectObj "'v Subject"
  | MappedObj "'v MappedSubject"
  | ComputedObj "'v ComputedSubject"

text \<open>What the store records of the calls made: a subscriber called by a notification loop,
  a subscriber called by \<^verbatim>\<open>sub\<close> for its initial notification, a console line.\<close>

datatype 'v entry =
    Notified sid handler "'v list"
  | InitialNotify sid handler "'v list"
  | ErrorLogged exn

record 'v store =
  objs :: "sid \<rightharpoonup> 'v obj"
  log :: "'v entry list"

type_synonym 'v sresult = "(exn option \<times> 'v store) option"
type_synonym 'v scaller = "handler \<Rightarrow> 'v list \<Rightarrow> 'v store \<Rightarrow> 'v sresult"

definition record_entry :: "'v entry \<Rightarrow> 'v store \<Rightarrow> 'v store" where
  "record_entry e st = st\<lparr>log := log st @ [e]\<rparr>"

fun subs_of :: "'v obj \<Rightarrow> handler list" where
  "subs_of (SubjectObj x) = subs x"
| "subs_of (MappedObj x) = m_subs x"
| "subs_of (ComputedObj x) = c_subs x"

fun with_subs :: "handler list \<Rightarrow> 'v obj \<Rightarrow> 'v obj" where
  "with_subs hs (SubjectObj x) = SubjectObj (x\<lparr>subs := hs\<rparr>)"
| "with_subs hs (MappedObj x) = MappedObj (x\<lparr>m_subs := hs\<rparr>)"
| "with_subs hs (ComputedObj x) = ComputedObj (x\<lparr>c_subs := hs\<rparr>)"

text \<open>\<^verbatim>\<open>get()\<close>.\<close>

fun get :: "'v obj \<Rightarrow> 'v" where
  "get (SubjectObj x) = s_value x"
| "get (MappedObj x) = m_value x"
| "get (ComputedObj x) = c_computedValue x"

text \<open>The arguments a subscribable passes to its subscribers: \<^verbatim>\<open>this.get()\<close>, or
  \<^verbatim>\<open>this._computedValue, this._value\<close> for a ComputedSubject.\<close>

fun args_of :: "'v obj \<Rightarrow> 'v list" where
  "args_of (ComputedObj x) = [c_computedValue x, c_value x]"
| "args_of x = [get x]"

definition subs_at :: "'v store \<Rightarrow> sid \<Rightarrow> handler list" where
  "subs_at st s = (case objs st s of None \<Rightarrow> [] | Some ob \<Rightarrow> subs_of ob)"

definition args_at :: "'v store \<Rightarrow> sid \<Rightarrow> 'v list" where
  "args_at st s = (case objs st s of None \<Rightarrow> [] | Some ob \<Rightarrow> args_of ob)"

subsection \<open>sub, unsub\<close>

text \<open>A reference always points to an object; an operation on a reference the store does not
  hold, or on an object whose class lacks the method, is the call of \<^verbatim>\<open>undefined\<close>.\<close>

definition sub :: "'v scaller \<Rightarrow> sid \<Rightarrow> handler \<Rightarrow> bool \<Rightarrow> 'v store \<Rightarrow> 'v sresult" where
  "sub call s fn initialNotify st =
     (case objs st s of
        None \<Rightarrow> Some (Some TypeError, st)
      | Some ob \<Rightarrow>
          (let st1 = st\<lparr>objs := (objs st)(s \<mapsto> with_subs (subs_of ob @ [fn]) ob)\<rparr>
           in if initialNotify then call fn (args_of ob) (record_entry (InitialNotify s fn (args_of ob)) st1)
              else Some (None, st1)))"

definition unsub :: "sid \<Rightarrow> handler \<Rightarrow> 'v store \<Rightarrow> 'v store" where
  "unsub s fn st =
     (case objs st s of
        None \<Rightarrow> st
      | Some ob \<Rightarrow> st\<lparr>objs := (objs st)(s \<mapsto> with_subs (remove1 fn (subs_of ob)) ob)\<rparr>)"

subsection \<open>AbstractSubscribable.notify\<close>

text \<open>\<^verbatim>\<open>subLen\<close> is fixed before the loop; \<^verbatim>\<open>this.subs[i]\<close> and \<^verbatim>\<open>this.get()\<close> are read at
  every step; the call sits in a try block.\<close>

definition call_sub_at :: "'v scaller \<Rightarrow> sid \<Rightarrow> nat \<Rightarrow> 'v store \<Rightarrow> 'v sresult" where
  "call_sub_at call s i st =
     (if i < length (subs_at st s)
      then call (subs_at st s ! i) (args_at st s) (record_entry (Notified s (subs_at st s ! i) (args_at st s)) st)
      else Some (Some TypeError, st))"

function notify_loop :: "'v scaller \<Rightarrow> sid \<Rightarrow> nat \<Rightarrow> nat \<Rightarrow> 'v store \<Rightarrow> 'v store option" where
  "notify_loop call s i subLen st =
     (if i < subLen then
        (case call_sub_at call s i st of
           None \<Rightarrow> None
         | Some (None, st') \<Rightarrow> notify_loop call s (Suc i) subLen st'
         | Some (Some error, st') \<Rightarrow> notify_loop call s (Suc i) subLen (record_entry (ErrorLogged error) st'))
      else Some st)"
  by pat_completeness auto
termination
  by (relation "measure (\<lambda>(call, s, i, subLen, st). subLen - i)") auto

declare notify_loop.simps [simp del]

definition notify :: "'v scaller \<Rightarrow> sid \<Rightarrow> 'v store \<Rightarrow> 'v store option" where
  "notify call s st = notify_loop call s 0 (length (subs_at st s)) st"

subsection \<open>Subject.set\<close>

definition Subject_set :: "'v scaller \<Rightarrow> sid \<Rightarrow> 'v \<Rightarrow> 'v store \<Rightarrow> 'v sresult" where
  "Subject_set call s v st =
     (case objs st s of
        Some (SubjectObj x) \<Rightarrow>
          if \<not> equalityFunc x v (s_value x) then
            (let x' = (case mutateFunc x of
                         Some f \<Rightarrow> x\<lparr>s_value := f (s_value x) v\<rparr>
                       | None \<Rightarrow> x\<lparr>s_value := v\<rparr>)
             in case notify call s (st\<lparr>objs := (objs st)(s \<mapsto> SubjectObj x')\<rparr>) of
                  None \<Rightarrow> None
                | Some st' \<Rightarrow> Some (None, st'))
          else Some (None, st)
      | _ \<Rightarrow> Some (Some TypeError, st))"

subsection \<open>ComputedSubject.set\<close>

text \<open>The loop of \<^verbatim>\<open>ComputedSubject.set\<close> has no try block.\<close>

function computed_loop :: "'v scaller \<Rightarrow> sid \<Rightarrow> nat \<Rightarrow> nat \<Rightarrow> 'v store \<Rightarrow> 'v sresult" where
  "computed_loop call s i subLen st =
     (if i < subLen then
        (case call_sub_at call s i st of
           None \<Rightarrow> None
         | Some (None, st') \<Rightarrow> computed_loop call s (Suc i) subLen st'
         | Some (Some error, st') \<Rightarrow> Some (Some error, st'))
      else Some (None, st))"
  by pat_completeness auto
termination
  by (relation "measure (\<lambda>(call, s, i, subLen, st). subLen - i)") auto

declare computed_loop.simps [simp del]

definition ComputedSubject_set :: "'v scaller \<Rightarrow> sid \<Rightarrow> 'v \<Rightarrow> 'v store \<Rightarrow> 'v sresult" where
  "ComputedSubject_set call s v st =
     (case objs st s of
        Some (ComputedObj x) \<Rightarrow>
          (let compValue = computeFn x v
           in if compValue \<noteq> c_computedValue x then
                (let st1 = st\<lparr>objs := (objs st)(s \<mapsto> ComputedObj (x\<lparr>c_value := v, c_computedValue := compValue\<rparr>))\<rparr>
                 in computed_loop call s 0 (length (subs_at st1 s)) st1)
              else Some (None, st\<lparr>objs := (objs st)(s \<mapsto> ComputedObj (x\<lparr>c_value := v\<rparr>))\<rparr>))
      | _ \<Rightarrow> Some (Some TypeError, st))"

subsection \<open>MappedSubject\<close>

text \<open>
  \<^verbatim>\<open>updateValue(index)\<close>: the slot of the input is refreshed, the value is mapped again, and
  only a value the equality function tells apart from the current one is stored and notified.
  \<^verbatim>\<open>inputValues\<close> is as long as \<^verbatim>\<open>inputs\<close> (the constructor makes it so, and only this
  method writes to it), so the write is within the array; the model lets a write at its end
  lengthen it, as JavaScript does.
\<close>

definition MappedSubject_updateValue :: "'v scaller \<Rightarrow> sid \<Rightarrow> nat \<Rightarrow> 'v store \<Rightarrow> 'v sresult" where
  "MappedSubject_updateValue call m index st =
     (case objs st m of
        Some (MappedObj x) \<Rightarrow>
          if index < length (inputs x) then
            (case objs st (inputs x ! index) of
               None \<Rightarrow> Some (Some TypeError, st)
             | Some inp \<Rightarrow>
                 (let vals = (if index < length (inputValues x)
                              then (inputValues x)[index := get inp]
                              else inputValues x @ [get inp]);
                      v = mapFunc x vals (Some (m_value x));
                      x1 = x\<lparr>inputValues := vals\<rparr>
                  in if \<not> m_equalityFunc x (m_value x) v then
                       (let x2 = (case m_mutateFunc x of
                                    Some f \<Rightarrow> x1\<lparr>m_value := f (m_value x) v\<rparr>
                                  | None \<Rightarrow> x1\<lparr>m_value := v\<rparr>)
                        in case notify call m (st\<lparr>objs := (objs st)(m \<mapsto> MappedObj x2)\<rparr>) of
                             None \<Rightarrow> None
                           | Some st' \<Rightarrow> Some (None, st'))
                     else Some (None, st\<lparr>objs := (objs st)(m \<mapsto> MappedObj x1)\<rparr>)))
          else Some (Some TypeError, st)
      | _ \<Rightarrow> Some (Some TypeError, st))"

text \<open>\<^verbatim>\<open>destroy()\<close>: \<^verbatim>\<open>this.inputs[i].unsub(this.inputHandlers[i])\<close> for every input.\<close>

fun destroy_loop :: "(sid \<times> handler) list \<Rightarrow> 'v store \<Rightarrow> 'v store" where
  "destroy_loop [] st = st"
| "destroy_loop ((inp, h) # rest) st = destroy_loop rest (unsub inp h st)"

definition MappedSubject_destroy :: "sid \<Rightarrow> 'v store \<Rightarrow> 'v store" where
  "MappedSubject_destroy m st =
     (case objs st m of
        Some (MappedObj x) \<Rightarrow> destroy_loop (zip (inputs x) (inputHandlers x)) st
      | _ \<Rightarrow> st)"

text \<open>
  The constructor, for a new object at the reference \<open>m\<close>. It reads every input and maps the
  values. \<^verbatim>\<open>if (initialVal && mutateFunc)\<close>: when an initial value is given that the host
  counts as true (\<open>truthy\<close>: an object is, the number 0 is not) and a mutate function is given
  too, the mapped value is written into the initial value by that function, which also
  serves later; otherwise the mapped value is the value, and later values replace it. Then
  one \<^verbatim>\<open>updateValue\<close> is bound per input and subscribed, without initial notification.
\<close>

fun subscribe_loop :: "(sid \<times> handler) list \<Rightarrow> 'v store \<Rightarrow> 'v store" where
  "subscribe_loop [] st = st"
| "subscribe_loop ((inp, h) # rest) st =
     subscribe_loop rest
       (case objs st inp of
          None \<Rightarrow> st
        | Some ob \<Rightarrow> st\<lparr>objs := (objs st)(inp \<mapsto> with_subs (subs_of ob @ [h]) ob)\<rparr>)"

definition MappedSubject_new ::
  "('v \<Rightarrow> bool) \<Rightarrow> sid \<Rightarrow> ('v list \<Rightarrow> 'v option \<Rightarrow> 'v) \<Rightarrow> ('v \<Rightarrow> 'v \<Rightarrow> bool) \<Rightarrow> ('v \<Rightarrow> 'v \<Rightarrow> 'v) option
     \<Rightarrow> 'v option \<Rightarrow> sid list \<Rightarrow> 'v store \<Rightarrow> exn + 'v store" where
  "MappedSubject_new truthy m mapFn eqFn mutFn initialVal ins st =
     (if \<forall>i \<in> set ins. objs st i \<noteq> None then
        (let vals = concat (map (\<lambda>i. case objs st i of None \<Rightarrow> [] | Some ob \<Rightarrow> [get ob]) ins);
             hs = map (UpdateValue m) [0 ..< length ins];
             replacing =
               \<lparr>m_subs = [], mapFunc = mapFn, m_equalityFunc = eqFn, inputs = ins, inputValues = vals,
                m_value = mapFn vals None, m_mutateFunc = None, inputHandlers = hs\<rparr>;
             x = (case (initialVal, mutFn) of
                    (Some iv, Some f) \<Rightarrow>
                      if truthy iv
                      then replacing\<lparr>m_value := f iv (mapFn vals None), m_mutateFunc := Some f\<rparr>
                      else replacing
                  | _ \<Rightarrow> replacing)
         in Inr (subscribe_loop (zip ins hs) (st\<lparr>objs := (objs st)(m \<mapsto> MappedObj x)\<rparr>)))
      else Inl TypeError)"

subsection \<open>Subscribers that call back into the subscribables\<close>

datatype 'v scmd =
    SThrow exn
  | Sub sid hid bool
  | Unsub sid hid
  | Set sid 'v
  | Destroy sid

fun exec_scmd :: "'v scaller \<Rightarrow> 'v scmd \<Rightarrow> 'v store \<Rightarrow> 'v sresult" where
  "exec_scmd call (SThrow error) st = Some (Some error, st)"
| "exec_scmd call (Sub s h initialNotify) st = sub call s (Ext h) initialNotify st"
| "exec_scmd call (Unsub s h) st =
     (case objs st s of None \<Rightarrow> Some (Some TypeError, st) | Some ob \<Rightarrow> Some (None, unsub s (Ext h) st))"
| "exec_scmd call (Set s v) st =
     (case objs st s of
        Some (SubjectObj x) \<Rightarrow> Subject_set call s v st
      | Some (ComputedObj x) \<Rightarrow> ComputedSubject_set call s v st
      | _ \<Rightarrow> Some (Some TypeError, st))"
| "exec_scmd call (Destroy m) st =
     (case objs st m of
        Some (MappedObj x) \<Rightarrow> Some (None, MappedSubject_destroy m st)
      | _ \<Rightarrow> Some (Some TypeError, st))"

fun exec_scmds :: "'v scaller \<Rightarrow> 'v scmd list \<Rightarrow> 'v store \<Rightarrow> 'v sresult" where
  "exec_scmds call [] st = Some (None, st)"
| "exec_scmds call (c # cs) st =
     (case exec_scmd call c st of
        None \<Rightarrow> None
      | Some (None, st') \<Rightarrow> exec_scmds call cs st'
      | Some (Some error, st') \<Rightarrow> Some (Some error, st'))"

text \<open>Calling a subscriber: the body of a closure, or \<^verbatim>\<open>updateValue\<close> of the MappedSubject
  the function was bound to (the arguments of the call are ignored by it).\<close>

primrec sinvoke :: "nat \<Rightarrow> (hid \<Rightarrow> 'v list \<Rightarrow> 'v scmd list) \<Rightarrow> 'v scaller" where
  "sinvoke 0 env = (\<lambda>h a st. None)"
| "sinvoke (Suc n) env =
     (\<lambda>h a st. case h of
        Ext k \<Rightarrow> exec_scmds (sinvoke n env) (env k a) st
      | UpdateValue m index \<Rightarrow> MappedSubject_updateValue (sinvoke n env) m index st)"

subsection \<open>Vocabulary for logs\<close>

text \<open>The calls the notification loop of the subscribable \<open>s\<close> made, in order: the subscriber
  and the arguments of each.\<close>

fun notified :: "sid \<Rightarrow> 'v entry list \<Rightarrow> (handler \<times> 'v list) list" where
  "notified s [] = []"
| "notified s (Notified s' h a # es) = (if s' = s then (h, a) # notified s es else notified s es)"
| "notified s (InitialNotify s' h a # es) = notified s es"
| "notified s (ErrorLogged error # es) = notified s es"

subsection \<open>A store used in examples\<close>

text \<open>The subscriber 7 throws, every other one returns.\<close>

definition throwing_env :: "hid \<Rightarrow> int list \<Rightarrow> int scmd list" where
  "throwing_env h a = (if h = 7 then [SThrow (Thrown ''boom'')] else [])"

definition doubling :: "int ComputedSubject" where
  "doubling = \<lparr>computeFn = (\<lambda>x. 2 * x), c_subs = [Ext 7, Ext 8], c_value = 1, c_computedValue = 2\<rparr>"

definition counter :: "int Subject" where
  "counter = \<lparr>subs = [Ext 7, Ext 8], s_value = 1, equalityFunc = (=), mutateFunc = None\<rparr>"

definition example_store :: "int store" where
  "example_store = \<lparr>objs = [0 \<mapsto> ComputedObj doubling, 1 \<mapsto> SubjectObj counter], log = []\<rparr>"

text \<open>A subscriber 7 that, when called, unsubscribes 8 from the Subject 1 and subscribes 9.\<close>

definition swapping_subscriber :: "hid \<Rightarrow> int list \<Rightarrow> int scmd list" where
  "swapping_subscriber h a = (if h = 7 then [Unsub 1 8, Sub 1 9 False] else [])"

text \<open>A subscriber 7 that unsubscribes itself from the Subject 1 when called.\<close>

definition one_shot_subscriber :: "hid \<Rightarrow> int list \<Rightarrow> int scmd list" where
  "one_shot_subscriber h a = (if h = 7 then [Unsub 1 7] else [])"

text \<open>A subscriber 7 that subscribes 9 to the Subject 1 when called.\<close>

definition adding_subscriber :: "hid \<Rightarrow> int list \<Rightarrow> int scmd list" where
  "adding_subscriber h a = (if h = 7 then [Sub 1 9 False] else [])"

subsection \<open>Notification over a snapshot\<close>

text \<open>The specification's reading of \<open>notify\<close>: the subscribers are those of the list as it
  was when the notification began; the value passed is read at each call.\<close>

fun notify_snapshot :: "'v scaller \<Rightarrow> sid \<Rightarrow> handler list \<Rightarrow> 'v store \<Rightarrow> 'v store option" where
  "notify_snapshot call s [] st = Some st"
| "notify_snapshot call s (h # hs) st =
     (case call h (args_at st s) (record_entry (Notified s h (args_at st s)) st) of
        None \<Rightarrow> None
      | Some (None, st') \<Rightarrow> notify_snapshot call s hs st'
      | Some (Some error, st') \<Rightarrow> notify_snapshot call s hs (record_entry (ErrorLogged error) st'))"

subsection \<open>A MappedSubject and the subscriber arrays of its inputs\<close>

text \<open>
  \<open>wired m x st\<close>: the bound functions of the MappedSubject \<open>m\<close> sit in subscriber arrays only
  where its constructor put them, that is, no more often in the array of \<open>s\<close> than
  \<^verbatim>\<open>destroy\<close> will unsubscribe them from \<open>s\<close>. The functions are private to \<open>m\<close>: the
  constructor subscribes each once, and no other code holds them.
  \<open>detached m st\<close>: they sit in no subscriber array at all.
\<close>

definition wired :: "sid \<Rightarrow> 'v MappedSubject \<Rightarrow> 'v store \<Rightarrow> bool" where
  "wired m x st \<longleftrightarrow>
     (\<forall>s ob index. objs st s = Some ob \<longrightarrow>
        count_list (subs_of ob) (UpdateValue m index)
          \<le> count_list (zip (inputs x) (inputHandlers x)) (s, UpdateValue m index))"

definition detached :: "sid \<Rightarrow> 'v store \<Rightarrow> bool" where
  "detached m st \<longleftrightarrow> (\<forall>s ob index. objs st s = Some ob \<longrightarrow> UpdateValue m index \<notin> set (subs_of ob))"

text \<open>\<open>frozen m v st\<close>: \<open>m\<close> is detached and holds the value \<open>v\<close>. \<open>silent m st st'\<close>: from \<open>st\<close> to
  \<open>st'\<close> the log has grown, by no call made by the notification loop of \<open>m\<close>.\<close>

definition frozen :: "sid \<Rightarrow> 'v \<Rightarrow> 'v store \<Rightarrow> bool" where
  "frozen m v st \<longleftrightarrow> detached m st \<and> (\<exists>x. objs st m = Some (MappedObj x) \<and> m_value x = v)"

definition silent :: "sid \<Rightarrow> 'v store \<Rightarrow> 'v store \<Rightarrow> bool" where
  "silent m st st' \<longleftrightarrow> (\<exists>evs. log st' = log st @ evs \<and> notified m evs = [])"

text \<open>A Subject 1 mapped by the MappedSubject 2, which adds one to its value; the subscriber 5
  of the MappedSubject returns.\<close>

definition successor :: "int MappedSubject" where
  "successor =
     \<lparr>m_subs = [Ext 5], mapFunc = (\<lambda>vals prev. sum_list vals + 1), m_equalityFunc = (=), inputs = [1],
      inputValues = [1], m_value = 2, m_mutateFunc = None, inputHandlers = [UpdateValue 2 0]\<rparr>"

definition mapped_store :: "int store" where
  "mapped_store =
     \<lparr>objs = [1 \<mapsto> SubjectObj (counter\<lparr>subs := [Ext 8, UpdateValue 2 0]\<rparr>), 2 \<mapsto> MappedObj successor],
      log = []\<rparr>"

text \<open>\<open>keeps m v call\<close>: calling any subscriber other than a bound function of \<open>m\<close> leaves \<open>m\<close>
  frozen at \<open>v\<close> and silent.\<close>

definition keeps :: "sid \<Rightarrow> 'v \<Rightarrow> 'v scaller \<Rightarrow> bool" where
  "keeps m v call \<longleftrightarrow>
     (\<forall>h a st r st'. (\<forall>index. h \<noteq> UpdateValue m index) \<longrightarrow> frozen m v st \<longrightarrow>
        call h a st = Some (r, st') \<longrightarrow> frozen m v st' \<and> silent m st st')"

text \<open>\<open>linked m ps st\<close>: \<open>m\<close> is a MappedSubject whose inputs and bound functions pair up as
  \<open>ps\<close>, and it is wired. \<open>preserves m ps call\<close>: calling a subscriber keeps it so.\<close>

definition linked :: "sid \<Rightarrow> (sid \<times> handler) list \<Rightarrow> 'v store \<Rightarrow> bool" where
  "linked m ps st \<longleftrightarrow>
     (\<exists>x. objs st m = Some (MappedObj x) \<and> zip (inputs x) (inputHandlers x) = ps \<and> wired m x st)"

definition preserves :: "sid \<Rightarrow> (sid \<times> handler) list \<Rightarrow> 'v scaller \<Rightarrow> bool" where
  "preserves m ps call \<longleftrightarrow>
     (\<forall>h a st r st'. linked m ps st \<longrightarrow> call h a st = Some (r, st') \<longrightarrow> linked m ps st')"

text \<open>A store in which the reference \<open>m\<close> is not in use: no object, and no bound function of
  such an object in any subscriber array.\<close>

definition unused :: "sid \<Rightarrow> 'v store \<Rightarrow> bool" where
  "unused m st \<longleftrightarrow> objs st m = None \<and> detached m st"

text \<open>The Subject 1 alone, with the subscriber 8.\<close>

definition plain_store :: "int store" where
  "plain_store = \<lparr>objs = [1 \<mapsto> SubjectObj (counter\<lparr>subs := [Ext 8]\<rparr>)], log = []\<rparr>"

section \<open>Consumers and their filters (class Consumer)\<close>

text \<open>
  A Consumer holds a state object and, unless it is the plain consumer of a topic, a
  \<^verbatim>\<open>currentHandler\<close>: the closure a chain-building method made, which captured the consumer
  the method was called on (\<^verbatim>\<open>this\<close>) and the argument of the method. The bus and the topic
  play no part in the filtering and are left out. \<^verbatim>\<open>Date.now()\<close> is the argument \<open>now\<close>.
  The filters \<^verbatim>\<open>atFrequency\<close> and \<^verbatim>\<open>withPrecision\<close> are modelled.

  JavaScript numbers are IEEE doubles, with rounding, infinities and NaN. The model does not
  fix them: the numbers are any type \<open>'n\<close>, and the operations of the host that the filters
  use come as a record, one field for each operator or function of the source.
\<close>

record 'n numbers =
  literal :: "int \<Rightarrow> 'n"               \<comment> \<open>the literals \<^verbatim>\<open>0\<close>, \<^verbatim>\<open>10\<close>, \<^verbatim>\<open>1000\<close>\<close>
  add :: "'n \<Rightarrow> 'n \<Rightarrow> 'n"                \<comment> \<open>\<^verbatim>\<open>a + b\<close>\<close>
  subtract :: "'n \<Rightarrow> 'n \<Rightarrow> 'n"           \<comment> \<open>\<^verbatim>\<open>a - b\<close>\<close>
  multiply :: "'n \<Rightarrow> 'n \<Rightarrow> 'n"           \<comment> \<open>\<^verbatim>\<open>a * b\<close>\<close>
  divide_by :: "'n \<Rightarrow> 'n \<Rightarrow> 'n"          \<comment> \<open>\<^verbatim>\<open>a / b\<close>\<close>
  less_than :: "'n \<Rightarrow> 'n \<Rightarrow> bool"        \<comment> \<open>\<^verbatim>\<open>a < b\<close>\<close>
  at_most :: "'n \<Rightarrow> 'n \<Rightarrow> bool"          \<comment> \<open>\<^verbatim>\<open>a <= b\<close>\<close>
  strict_neq :: "'n \<Rightarrow> 'n \<Rightarrow> bool"       \<comment> \<open>\<^verbatim>\<open>a !== b\<close>\<close>
  Math_round :: "'n \<Rightarrow> 'n"
  Math_pow :: "'n \<Rightarrow> 'n \<Rightarrow> 'n"

datatype 'n state = Empty | PreviousTime (previousTime: 'n) | LastValue (lastValue: 'n)

datatype 'n filter =
    AtFrequency 'n     \<comment> \<open>\<^verbatim>\<open>deltaTimeTrigger\<close>\<close>
  | WithPrecision 'n   \<comment> \<open>\<^verbatim>\<open>precision\<close>\<close>

datatype 'n Consumer = Consumer (state: "'n state") (currentHandler: "('n filter \<times> 'n Consumer) option")

text \<open>\<^verbatim>\<open>while ((state.previousTime + deltaTimeTrigger) < currentTime)
  state.previousTime += deltaTimeTrigger\<close>. Nothing makes this loop end: the result is \<open>None\<close>
  when it does not.\<close>

partial_function (option) advance :: "'n numbers \<Rightarrow> 'n \<Rightarrow> 'n \<Rightarrow> 'n \<Rightarrow> 'n option" where
  "advance ops deltaTimeTrigger currentTime prev =
     (if less_than ops (add ops prev deltaTimeTrigger) currentTime
      then advance ops deltaTimeTrigger currentTime (add ops prev deltaTimeTrigger)
      else Some prev)"

text \<open>\<^verbatim>\<open>multiplier = Math.pow(10, precision)\<close> and
  \<^verbatim>\<open>currentValueAtPrecision = Math.round(dataValue * multiplier) / multiplier\<close>.\<close>

definition multiplier :: "'n numbers \<Rightarrow> 'n \<Rightarrow> 'n" where
  "multiplier ops precision = Math_pow ops (literal ops 10) precision"

definition valueAtPrecision :: "'n numbers \<Rightarrow> 'n \<Rightarrow> 'n \<Rightarrow> 'n" where
  "valueAtPrecision ops precision dataValue =
     divide_by ops (Math_round ops (multiply ops dataValue (multiplier ops precision)))
       (multiplier ops precision)"

text \<open>
  \<^verbatim>\<open>with(data, handler)\<close>, which is also what the function registered by \<^verbatim>\<open>handle\<close> does:
  without a \<^verbatim>\<open>currentHandler\<close> the data goes to the final handler; otherwise the closure
  runs on the state of this consumer and, when it lets the data pass, hands it to
  \<^verbatim>\<open>this.with\<close> of the consumer it captured. The result is the chain with its new states and
  the value that reached the final handler, if one did; \<open>None\<close> when the loop does not end.

  The chain-building methods give every closure a state object with the field it reads. The
  last two equations say what the closures do on another state object, where the field reads
  as \<^verbatim>\<open>undefined\<close>: \<^verbatim>\<open>currentTime - undefined\<close> is NaN, to which nothing compares, and a
  number is never \<^verbatim>\<open>undefined\<close>.
\<close>

fun Consumer_with :: "'n numbers \<Rightarrow> 'n \<Rightarrow> 'n Consumer \<Rightarrow> 'n \<Rightarrow> ('n Consumer \<times> 'n option) option" where
  "Consumer_with ops now (Consumer st None) d = Some (Consumer st None, Some d)"
| "Consumer_with ops now (Consumer (PreviousTime prev) (Some (AtFrequency deltaTimeTrigger, this))) d =
     (if at_most ops deltaTimeTrigger (subtract ops now prev) then
        (case advance ops deltaTimeTrigger now prev of
           None \<Rightarrow> None
         | Some prev' \<Rightarrow>
             (case Consumer_with ops now this d of
                None \<Rightarrow> None
              | Some (this', out) \<Rightarrow>
                  Some (Consumer (PreviousTime prev') (Some (AtFrequency deltaTimeTrigger, this')), out)))
      else Some (Consumer (PreviousTime prev) (Some (AtFrequency deltaTimeTrigger, this)), None))"
| "Consumer_with ops now (Consumer (LastValue lastv) (Some (WithPrecision precision, this))) d =
     (if strict_neq ops (valueAtPrecision ops precision d) lastv then
        (case Consumer_with ops now this (valueAtPrecision ops precision d) of
           None \<Rightarrow> None
         | Some (this', out) \<Rightarrow>
             Some (Consumer (LastValue (valueAtPrecision ops precision d)) (Some (WithPrecision precision, this')), out))
      else Some (Consumer (LastValue lastv) (Some (WithPrecision precision, this)), None))"
| "Consumer_with ops now (Consumer st (Some (AtFrequency deltaTimeTrigger, this))) d =
     Some (Consumer st (Some (AtFrequency deltaTimeTrigger, this)), None)"
| "Consumer_with ops now (Consumer st (Some (WithPrecision precision, this))) d =
     (case Consumer_with ops now this (valueAtPrecision ops precision d) of
        None \<Rightarrow> None
      | Some (this', out) \<Rightarrow>
          Some (Consumer (LastValue (valueAtPrecision ops precision d)) (Some (WithPrecision precision, this')), out))"

text \<open>The chain-building methods, called at the time \<open>now\<close> on the consumer \<open>this\<close>.\<close>

definition atFrequency :: "'n numbers \<Rightarrow> 'n \<Rightarrow> 'n \<Rightarrow> 'n Consumer \<Rightarrow> 'n Consumer" where
  "atFrequency ops now frequency this =
     Consumer (PreviousTime now) (Some (AtFrequency (divide_by ops (literal ops 1000) frequency), this))"

definition withPrecision :: "'n numbers \<Rightarrow> 'n \<Rightarrow> 'n Consumer \<Rightarrow> 'n Consumer" where
  "withPrecision ops precision this = Consumer (LastValue (literal ops 0)) (Some (WithPrecision precision, this))"

text \<open>\<^verbatim>\<open>EventSubscriber.on(topic)\<close>: the plain consumer of a topic.\<close>

definition plain :: "'n Consumer" where
  "plain = Consumer Empty None"

text \<open>A run of deliveries \<open>(time, value)\<close> to the function a chain registered with \<^verbatim>\<open>handle\<close>:
  the chain afterwards, and the values that reached the final handler, in order.\<close>

fun deliveries :: "'n numbers \<Rightarrow> 'n Consumer \<Rightarrow> ('n \<times> 'n) list \<Rightarrow> ('n Consumer \<times> 'n list) option" where
  "deliveries ops c [] = Some (c, [])"
| "deliveries ops c ((t, d) # rest) =
     (case Consumer_with ops t c d of
        None \<Rightarrow> None
      | Some (c', out) \<Rightarrow>
          (case deliveries ops c' rest of
             None \<Rightarrow> None
           | Some (c'', outs) \<Rightarrow> Some (c'', (case out of None \<Rightarrow> [] | Some v \<Rightarrow> [v]) @ outs)))"

text \<open>
  A host for the examples: the rationals, computed exactly. The doubles of JavaScript agree
  with it as long as every number that comes up is an integer below \<open>2 ^ 53\<close> in size or a
  quotient that a double holds exactly (such as \<open>1000 / 10\<close> or \<open>1 / 32\<close>), with no division by
  zero and whole exponents. The examples stay within that.
\<close>

definition exact_numbers :: "rat numbers" where
  "exact_numbers =
     \<lparr>literal = of_int, add = (+), subtract = (-), multiply = (*), divide_by = (/),
      less_than = (<), at_most = (\<le>), strict_neq = (\<noteq>),
      Math_round = (\<lambda>x. of_int \<lfloor>x + 1 / 2\<rfloor>),
      Math_pow = (\<lambda>b e. if 0 \<le> e then b ^ nat \<lfloor>e\<rfloor> else 1 / b ^ nat \<lfloor>- e\<rfloor>)\<rparr>"

section \<open>Properties of the event bus\<close>

lemma emit_simps [simp]:
  "trace (emit e w) = trace w @ [e]"
  "eventCache (emit e w) = eventCache w"
  "topicHandlersMap (emit e w) = topicHandlersMap w"
  "wildcardHandlers (emit e w) = wildcardHandlers w"
  "busSync (emit e w) = busSync w"
  "handlers_of (emit e w) t = handlers_of w t"
  by (simp_all add: emit_def handlers_of_def)

lemma pub_handlers_done: "\<not> i < len \<Longrightarrow> pub_handlers call topic d i len w = Some w"
  by (subst pub_handlers.simps) simp

lemma pub_handlers_step:
  "i < len \<Longrightarrow> pub_handlers call topic d i len w =
     (case call_at call (handlers_of w topic) i (Direct d) w of
        None \<Rightarrow> None
      | Some (None, w') \<Rightarrow> pub_handlers call topic d (Suc i) len w'
      | Some (Some error, w') \<Rightarrow> pub_handlers call topic d (Suc i) len (emit (ConsoleError error) w'))"
  by (subst pub_handlers.simps) simp

lemma pub_wildcards_done: "\<not> i < wcLen \<Longrightarrow> pub_wildcards call topic d i wcLen w = Some (None, w)"
  by (subst pub_wildcards.simps) simp

lemma pub_wildcards_step:
  "i < wcLen \<Longrightarrow> pub_wildcards call topic d i wcLen w =
     (case call_at call (wildcardHandlers w) i (Wildcard topic d) w of
        None \<Rightarrow> None
      | Some (None, w') \<Rightarrow> pub_wildcards call topic d (Suc i) wcLen w'
      | Some (Some error, w') \<Rightarrow> Some (Some error, w'))"
  by (subst pub_wildcards.simps) simp

lemma pub_handlers_quiet:
  assumes quiet: "\<forall>h \<in> set hs. \<forall>a w. call h a w = Some (outcome h a (eventCache w), w)"
  shows "handlers_of w topic = hs \<Longrightarrow> i \<le> len \<Longrightarrow> len = length hs \<Longrightarrow>
     pub_handlers call topic d i len w =
       Some (w\<lparr>trace := trace w @
          direct_trace (\<lambda>h. outcome h (Direct d) (eventCache w)) d (drop i hs)\<rparr>)"
proof (induction "len - i" arbitrary: i w)
  case 0
  then show ?case by (simp add: direct_trace_def pub_handlers_done)
next
  case (Suc k)
  then have lt: "i < len" by simp
  have k: "k = len - Suc i" using Suc.hyps(2) by simp
  have le: "Suc i \<le> len" using lt by simp
  have dr: "drop i hs = hs ! i # drop (Suc i) hs"
    using lt Suc.prems by (simp add: Cons_nth_drop_Suc)
  have mem: "hs ! i \<in> set hs" using lt Suc.prems by simp
  let ?w0 = "emit (Invoked (hs ! i) (Direct d)) w"
  have q: "call (hs ! i) (Direct d) ?w0 = Some (outcome (hs ! i) (Direct d) (eventCache w), ?w0)"
    using quiet mem by simp
  have at: "call_at call (handlers_of w topic) i (Direct d) w =
              Some (outcome (hs ! i) (Direct d) (eventCache w), ?w0)"
    using lt Suc.prems q by (simp add: call_at_def)
  show ?case
  proof (cases "outcome (hs ! i) (Direct d) (eventCache w)")
    case None
    have h0: "handlers_of ?w0 topic = hs" using Suc.prems(1) by simp
    have "pub_handlers call topic d i len w = pub_handlers call topic d (Suc i) len ?w0"
      using lt at None by (simp add: pub_handlers_step)
    also have "\<dots> = Some (?w0\<lparr>trace := trace ?w0 @
          direct_trace (\<lambda>h. outcome h (Direct d) (eventCache ?w0)) d (drop (Suc i) hs)\<rparr>)"
      using Suc.hyps(1)[OF k h0 le Suc.prems(3)] .
    finally show ?thesis
      using None dr by (simp add: direct_trace_def emit_def)
  next
    case (Some e)
    let ?w1 = "emit (ConsoleError e) ?w0"
    have h1: "handlers_of ?w1 topic = hs" using Suc.prems(1) by simp
    have "pub_handlers call topic d i len w = pub_handlers call topic d (Suc i) len ?w1"
      using lt at Some by (simp add: pub_handlers_step)
    also have "\<dots> = Some (?w1\<lparr>trace := trace ?w1 @
          direct_trace (\<lambda>h. outcome h (Direct d) (eventCache ?w1)) d (drop (Suc i) hs)\<rparr>)"
      using Suc.hyps(1)[OF k h1 le Suc.prems(3)] .
    finally show ?thesis
      using Some dr by (simp add: direct_trace_def emit_def)
  qed
qed

lemma pub_wildcards_quiet:
  assumes quiet: "\<forall>h \<in> set hs. \<forall>a w. call h a w = Some (outcome h a (eventCache w), w)"
      and ok: "\<forall>h \<in> set hs. \<forall>c. outcome h (Wildcard topic d) c = None"
  shows "wildcardHandlers w = hs \<Longrightarrow> i \<le> wcLen \<Longrightarrow> wcLen = length hs \<Longrightarrow>
     pub_wildcards call topic d i wcLen w =
       Some (None, w\<lparr>trace := trace w @ map (\<lambda>h. Invoked h (Wildcard topic d)) (drop i hs)\<rparr>)"
proof (induction "wcLen - i" arbitrary: i w)
  case 0
  then show ?case by (simp add: pub_wildcards_done)
next
  case (Suc k)
  then have lt: "i < wcLen" by simp
  have k: "k = wcLen - Suc i" using Suc.hyps(2) by simp
  have le: "Suc i \<le> wcLen" using lt by simp
  have dr: "drop i hs = hs ! i # drop (Suc i) hs"
    using lt Suc.prems by (simp add: Cons_nth_drop_Suc)
  have mem: "hs ! i \<in> set hs" using lt Suc.prems by simp
  let ?w0 = "emit (Invoked (hs ! i) (Wildcard topic d)) w"
  have q: "call (hs ! i) (Wildcard topic d) ?w0 = Some (None, ?w0)"
    using quiet ok mem by simp
  have h0: "wildcardHandlers ?w0 = hs" using Suc.prems(1) by simp
  have "pub_wildcards call topic d i wcLen w = pub_wildcards call topic d (Suc i) wcLen ?w0"
    using lt Suc.prems q by (simp add: pub_wildcards_step call_at_def)
  also have "\<dots> = Some (None, ?w0\<lparr>trace := trace ?w0 @
        map (\<lambda>h. Invoked h (Wildcard topic d)) (drop (Suc i) hs)\<rparr>)"
    using Suc.hyps(1)[OF k h0 le Suc.prems(3)] .
  finally show ?case
    using dr by (simp add: emit_def)
qed

lemma syncEvent_accepted:
  assumes "send_accepted (busSync w) topic d isCached"
  shows "\<exists>w'. syncEvent topic d isCached w = (None, w')
           \<and> trace w' = trace w @ sync_events (busSync w) topic d isCached
           \<and> eventCache w' = eventCache w \<and> topicHandlersMap w' = topicHandlersMap w
           \<and> wildcardHandlers w' = wildcardHandlers w"
proof (cases "busSync w")
  case (EventBusStorageSync bid g)
  with assms obtain item where "storage_payload g topic d = Inr item" "setItem g EB_KEY item = None"
    by (auto simp add: send_accepted_def split: sum.splits)
  with EventBusStorageSync show ?thesis
    by (simp add: syncEvent_def sendEvent_def sync_events_def)
next
  case (EventBusCoherentSync bid n les lsn)
  with assms show ?thesis
    by (simp add: syncEvent_def sendEvent_def sync_events_def send_accepted_def emit_def)
qed

text \<open>
  C1, as claimed: every call of \<open>pub\<close> calls every direct handler registered for the topic, in
  registration order, then hands the event to the adapter, then calls every wildcard handler.
  It fails on the code when a handler changes the handler list while the loop runs: the loop
  goes by index over the live array, up to the length it had at the start. The handler 1
  unregisters itself (a handler meant to run once): the handler 2 moves into the slot the loop
  has just left and is never called, and past the end of the array the loop calls
  \<^verbatim>\<open>undefined\<close>, a TypeError that it logs.
\<close>

theorem pub_order_counterexample:
  "pub (invoke (Suc 0) one_shot_env) ''t'' 5 False False example_bus =
     Some (None, example_bus\<lparr>topicHandlersMap := [''t'' \<mapsto> [2, 3]],
                   trace := [Invoked 1 (Direct 5), Invoked 3 (Direct 5), ConsoleError TypeError,
                             Invoked 7 (Wildcard ''t'' 5), Invoked 8 (Wildcard ''t'' 5)]\<rparr>)"
  by (simp add: pub_def example_bus_def one_shot_env_def pub_handlers_step pub_handlers_done
        pub_wildcards_step pub_wildcards_done call_at_def handlers_of_def emit_def EventBus_off_def)

text \<open>A handler registered from inside a callback is called at once by \<open>on\<close>, which replays
  the value \<open>pub\<close> has just cached: the handler 9, registered last, is called before 2 and 3.\<close>

lemma registration_replayed_before_earlier_handlers:
  "\<exists>w'. pub (invoke (Suc (Suc 0)) adding_env) ''t'' 5 False True example_bus = Some (None, w')
      \<and> trace w' =
          [Invoked 1 (Direct 5), Invoked 9 (Direct 5), Invoked 2 (Direct 5), Invoked 3 (Direct 5),
           Invoked 7 (Wildcard ''t'' 5), Invoked 8 (Wildcard ''t'' 5), Invoked 9 (Wildcard ''t'' 5)]"
  by (simp add: pub_def example_bus_def adding_env_def pub_handlers_step pub_handlers_done
        pub_wildcards_step pub_wildcards_done call_at_def handlers_of_def emit_def EventBus_on_def onAll_def)

text \<open>
  C1, amended: for every call \<open>pub(topic, data, sync, isCached)\<close> in which the handlers
  registered for the topic and the wildcard handlers return or throw without calling back into
  the bus (they register, unregister and publish nothing from inside the callback), the
  wildcard handlers return, and the adapter's \<open>sendEvent\<close> returns: first, if \<open>isCached\<close>, the
  pair \<open>(data, sync)\<close> becomes the cached last value of the topic, overwriting any earlier one
  (the handlers already see the new cache: their outcome is taken at the cache of the final
  state); then every direct handler of the topic is called with \<open>data\<close> in registration order,
  what one throws being logged; then, if \<open>sync\<close>, the event is handed to the synchronisation
  adapter; and only then is every wildcard handler called with \<open>(topic, data)\<close>.
\<close>

theorem pub_order:
  assumes quiet: "\<forall>h \<in> set (handlers_of w topic) \<union> set (wildcardHandlers w).
                    \<forall>a w'. call h a w' = Some (outcome h a (eventCache w'), w')"
      and wild: "\<forall>h \<in> set (wildcardHandlers w). \<forall>c. outcome h (Wildcard topic d) c = None"
      and send: "sync \<longrightarrow> send_accepted (busSync w) topic d isCached"
  shows "\<exists>w'. pub call topic d sync isCached w = Some (None, w')
           \<and> eventCache w' = (if isCached then AList.update topic \<lparr>data = d, synced = sync\<rparr> (eventCache w)
                               else eventCache w)
           \<and> (isCached \<longrightarrow> map_of (eventCache w') topic = Some \<lparr>data = d, synced = sync\<rparr>)
           \<and> trace w' = trace w
                 @ direct_trace (\<lambda>h. outcome h (Direct d) (eventCache w')) d (handlers_of w topic)
                 @ (if sync then sync_events (busSync w) topic d isCached else [])
                 @ map (\<lambda>h. Invoked h (Wildcard topic d)) (wildcardHandlers w)"
proof -
  define w1 where "w1 = (if isCached
                then w\<lparr>eventCache := AList.update topic \<lparr>data = d, synced = sync\<rparr> (eventCache w)\<rparr>
                else w)"
  have w1_frame: "topicHandlersMap w1 = topicHandlersMap w" "wildcardHandlers w1 = wildcardHandlers w"
       "trace w1 = trace w" "busSync w1 = busSync w" "handlers_of w1 topic = handlers_of w topic"
    by (simp_all add: w1_def handlers_of_def)
  define dt where "dt = direct_trace (\<lambda>h. outcome h (Direct d) (eventCache w1)) d (handlers_of w topic)"
  define w2 where "w2 = w1\<lparr>trace := trace w @ dt\<rparr>"
  have step2: "(case topicHandlersMap w1 topic of
                 Some handlers \<Rightarrow> pub_handlers call topic d 0 (length handlers) w1
               | None \<Rightarrow> Some w1) = Some w2"
  proof (cases "topicHandlersMap w topic")
    case None
    have "dt = []" using None by (simp add: dt_def handlers_of_def direct_trace_def)
    then have "w2 = w1" by (simp add: w2_def w1_frame(3)[symmetric])
    then show ?thesis using None by (simp add: w1_frame(1))
  next
    case (Some hs)
    then have h: "handlers_of w1 topic = hs" by (simp add: handlers_of_def w1_frame)
    have q: "\<forall>h \<in> set hs. \<forall>a w'. call h a w' = Some (outcome h a (eventCache w'), w')"
      using quiet h by (simp add: w1_frame)
    show ?thesis
      using pub_handlers_quiet[where hs = hs and w = w1 and i = 0 and len = "length hs" and topic = topic
              and d = d, OF q h] Some h
      by (simp add: w1_frame w2_def dt_def)
  qed
  have w2_frame: "busSync w2 = busSync w" "wildcardHandlers w2 = wildcardHandlers w"
       "eventCache w2 = eventCache w1" "trace w2 = trace w @ dt"
    by (simp_all add: w2_def w1_frame)
  obtain w3 where sy: "sync \<longrightarrow> syncEvent topic d isCached w2 = (None, w3)"
      and w3_frame: "wildcardHandlers w3 = wildcardHandlers w" "eventCache w3 = eventCache w1"
      and w3_trace: "trace w3 = trace w @ dt @ (if sync then sync_events (busSync w) topic d isCached else [])"
      and ns: "\<not> sync \<longrightarrow> w3 = w2"
  proof (cases sync)
    case True
    then have "send_accepted (busSync w2) topic d isCached" using send w2_frame by simp
    from syncEvent_accepted[OF this] obtain w' where "syncEvent topic d isCached w2 = (None, w')"
        "trace w' = trace w2 @ sync_events (busSync w2) topic d isCached"
        "eventCache w' = eventCache w2" "wildcardHandlers w' = wildcardHandlers w2"
      by blast
    then show ?thesis using that[of w'] True w2_frame by simp
  next
    case False
    then show ?thesis using that[of w2] w2_frame by simp
  qed
  have step3: "pub_wildcards call topic d 0 (length (wildcardHandlers w3)) w3 =
      Some (None, w3\<lparr>trace := trace w3 @ map (\<lambda>h. Invoked h (Wildcard topic d)) (wildcardHandlers w3)\<rparr>)"
  proof -
    have q: "\<forall>h \<in> set (wildcardHandlers w). \<forall>a w'. call h a w' = Some (outcome h a (eventCache w'), w')"
      using quiet by simp
    from pub_wildcards_quiet[where hs = "wildcardHandlers w" and w = w3 and i = 0
           and wcLen = "length (wildcardHandlers w)", OF q wild w3_frame(1)]
    show ?thesis by (simp add: w3_frame)
  qed
  have pub_eq: "pub call topic d sync isCached w =
      Some (None, w3\<lparr>trace := trace w3 @ map (\<lambda>h. Invoked h (Wildcard topic d)) (wildcardHandlers w3)\<rparr>)"
  proof (cases sync)
    case True
    then show ?thesis
      unfolding pub_def Let_def w1_def[symmetric] step2 using step3 sy by simp
  next
    case False
    then show ?thesis
      unfolding pub_def Let_def w1_def[symmetric] step2 using step3 ns by simp
  qed
  have cache: "eventCache w1 = (if isCached then AList.update topic \<lparr>data = d, synced = sync\<rparr> (eventCache w)
                               else eventCache w)"
    by (simp add: w1_def)
  show ?thesis
    unfolding pub_eq
    by (simp add: w3_frame w3_trace dt_def cache update_Some_unfold)
qed

theorem pub_order_witness:
  "\<exists>w'. pub (invoke (Suc 0) example_env) ''t'' 5 True True example_bus = Some (None, w')
      \<and> map_of (eventCache w') ''t'' = Some \<lparr>data = 5, synced = True\<rparr>
      \<and> trace w' =
          [Invoked 1 (Direct 5), Invoked 2 (Direct 5), ConsoleError (Thrown ''boom''), Invoked 3 (Direct 5),
           Triggered (CoherentMsg ''t'' 5 True 42 0),
           Invoked 7 (Wildcard ''t'' 5), Invoked 8 (Wildcard ''t'' 5)]"
proof -
  have q: "\<forall>h \<in> set (handlers_of example_bus ''t'') \<union> set (wildcardHandlers example_bus).
             \<forall>a w. invoke (Suc 0) example_env h a w =
               Some ((if h = 2 then Some (Thrown ''boom'') else None), w)"
    by (simp add: example_env_def)
  have wl: "\<forall>h \<in> set (wildcardHandlers example_bus). \<forall>c::(topic \<times> int cached_event) list.
             (if h = 2 then Some (Thrown ''boom'') else None) = None"
    by (auto simp add: example_bus_def)
  have sd: "True \<longrightarrow> send_accepted (busSync example_bus) ''t'' (5::int) True"
    by (simp add: send_accepted_def example_bus_def)
  from pub_order[where call = "invoke (Suc 0) example_env"
         and outcome = "\<lambda>h a c. if h = 2 then Some (Thrown ''boom'') else None"
         and w = example_bus and topic = "''t''" and d = 5 and sync = True and isCached = True, OF q wl sd]
  show ?thesis
    by (auto simp add: example_bus_def direct_trace_def sync_events_def handlers_of_def)
qed

text \<open>
  C3. If the topic has a cached last value, \<open>on(topic, handler)\<close> registers the handler and calls
  it once, before returning, with that value; if the topic has none, \<open>on\<close> registers the handler
  and does not call it. The handler here returns or throws without calling back into the bus;
  what it throws leaves \<open>on\<close>, which has no try block.
\<close>

theorem on_replays_cached_value:
  assumes quiet: "\<And>v w. call handler (Direct v) w = Some (outcome v, w)"
  shows "\<exists>r w'. EventBus_on call topic handler w = Some (r, w')
           \<and> handlers_of w' topic = handlers_of w topic @ [handler]
           \<and> (case map_of (eventCache w) topic of
                 Some lastState \<Rightarrow> trace w' = trace w @ [Invoked handler (Direct (data lastState))]
                                    \<and> r = outcome (data lastState)
               | None \<Rightarrow> trace w' = trace w \<and> r = None)"
  by (cases "topicHandlersMap w topic"; cases "map_of (eventCache w) topic")
     (simp_all add: EventBus_on_def quiet handlers_of_def)

theorem on_replays_cached_value_witness:
  "(\<exists>w'. EventBus_on (invoke (Suc 0) example_env) ''t'' 9
            (example_bus\<lparr>eventCache := [(''t'', \<lparr>data = 5, synced = False\<rparr>)]\<rparr>) = Some (None, w')
        \<and> handlers_of w' ''t'' = [1, 2, 3, 9] \<and> trace w' = [Invoked 9 (Direct 5)])
   \<and> (\<exists>w'. EventBus_on (invoke (Suc 0) example_env) ''t'' 9 example_bus = Some (None, w')
        \<and> handlers_of w' ''t'' = [1, 2, 3, 9] \<and> trace w' = [])"
proof -
  have q: "\<And>v w. invoke (Suc 0) example_env 9 (Direct v) w = Some (None, w)"
    by (simp add: example_env_def)
  from on_replays_cached_value[of "invoke (Suc 0) example_env" 9 "\<lambda>v. None" "''t''"
         "example_bus\<lparr>eventCache := [(''t'', \<lparr>data = 5, synced = False\<rparr>)]\<rparr>", OF q]
       on_replays_cached_value[of "invoke (Suc 0) example_env" 9 "\<lambda>v. None" "''t''" example_bus, OF q]
  show ?thesis
    by (simp add: example_bus_def handlers_of_def)
qed

text \<open>
  C6. A message received by the Coherent adapter is dropped, with no local publish and no change
  of state, when its \<open>busId\<close> is the adapter's own, and also when its number is the number of the
  last message taken; any other message is published locally once, with \<open>sync = false\<close> and the
  \<open>isCached\<close> of the message, and its number becomes the last one taken.
\<close>

theorem coherent_receive_discards:
  assumes "busSync w = EventBusCoherentSync bid n les lsn"
  shows "Coherent_receiveEvent call e w =
           (if m_busId e = bid \<or> m_evtNum e = les then Some (None, w)
            else pub call (m_topic e) (m_data e) False (m_isCached e)
                   (w\<lparr>busSync := EventBusCoherentSync bid n (m_evtNum e) lsn\<rparr>))"
  using assms by (auto simp add: Coherent_receiveEvent_def recvEventCb_def)

theorem coherent_receive_discards_witness:
  "Coherent_receiveEvent (invoke (Suc 0) example_env) (CoherentMsg ''t'' 5 True 42 9) example_bus
     = Some (None, example_bus)
   \<and> Coherent_receiveEvent (invoke (Suc 0) example_env) (CoherentMsg ''t'' 5 True 7 (- 1)) example_bus
     = Some (None, example_bus)
   \<and> Coherent_receiveEvent (invoke (Suc 0) example_env) (CoherentMsg ''t'' 5 True 7 3) example_bus
     = pub (invoke (Suc 0) example_env) ''t'' 5 False True
         (example_bus\<lparr>busSync := EventBusCoherentSync 42 0 3 (\<lambda>msg. None)\<rparr>)"
proof -
  have b: "busSync example_bus = EventBusCoherentSync 42 0 (- 1) (\<lambda>msg. None)"
    by (simp add: example_bus_def)
  from coherent_receive_discards[OF b, of "invoke (Suc 0) example_env" "CoherentMsg ''t'' 5 True 42 9"]
       coherent_receive_discards[OF b, of "invoke (Suc 0) example_env" "CoherentMsg ''t'' 5 True 7 (- 1)"]
       coherent_receive_discards[OF b, of "invoke (Suc 0) example_env" "CoherentMsg ''t'' 5 True 7 3"]
  show ?thesis by simp
qed

section \<open>Exceptions thrown by handlers\<close>

lemma record_entry_simps [simp]:
  "log (record_entry e st) = log st @ [e]"
  "objs (record_entry e st) = objs st"
  "subs_at (record_entry e st) s = subs_at st s"
  "args_at (record_entry e st) s = args_at st s"
  by (simp_all add: record_entry_def subs_at_def args_at_def)

lemma notified_append [simp]: "notified s (xs @ ys) = notified s xs @ notified s ys"
  by (induction s xs rule: notified.induct) simp_all

lemma subs_of_with_subs [simp]: "subs_of (with_subs hs ob) = hs"
  by (cases ob) simp_all

lemma notify_loop_done: "\<not> i < subLen \<Longrightarrow> notify_loop call s i subLen st = Some st"
  by (subst notify_loop.simps) simp

lemma notify_loop_step:
  "i < subLen \<Longrightarrow> notify_loop call s i subLen st =
     (case call_sub_at call s i st of
        None \<Rightarrow> None
      | Some (None, st') \<Rightarrow> notify_loop call s (Suc i) subLen st'
      | Some (Some error, st') \<Rightarrow> notify_loop call s (Suc i) subLen (record_entry (ErrorLogged error) st'))"
  by (subst notify_loop.simps) simp

lemma computed_loop_done: "\<not> i < subLen \<Longrightarrow> computed_loop call s i subLen st = Some (None, st)"
  by (subst computed_loop.simps) simp

lemma computed_loop_step:
  "i < subLen \<Longrightarrow> computed_loop call s i subLen st =
     (case call_sub_at call s i st of
        None \<Rightarrow> None
      | Some (None, st') \<Rightarrow> computed_loop call s (Suc i) subLen st'
      | Some (Some error, st') \<Rightarrow> Some (Some error, st'))"
  by (subst computed_loop.simps) simp

text \<open>
  C4. The claim: an exception thrown by a handler is caught and logged at the dispatch
  boundary, never reaches the caller of \<open>pub\<close> or \<open>set\<close>, and does not keep the remaining
  handlers from being called; for the direct and the wildcard handlers of \<open>pub\<close>, for the
  notification of observables and for ComputedSubject. The code does so for the direct
  handlers and for \<open>notify\<close>, whose calls sit in try blocks. The wildcard loop of \<open>pub\<close> and
  the loop of \<open>ComputedSubject.set\<close> have none: with the handlers 7 and 8 registered in that
  order and 7 throwing, the exception leaves \<open>pub\<close> (resp. \<open>set\<close>), nothing is logged, and 8 is
  never called; the same two subscribers on a Subject are both called and the error is logged.
\<close>

theorem uncaught_handler_exceptions:
  "pub (invoke (Suc 0) faulty_env) ''t'' 5 False True example_bus =
     Some (Some (Thrown ''boom''),
           example_bus\<lparr>eventCache := [(''t'', \<lparr>data = 5, synced = False\<rparr>)],
                       trace := [Invoked 1 (Direct 5), Invoked 2 (Direct 5), Invoked 3 (Direct 5),
                                 Invoked 7 (Wildcard ''t'' 5)]\<rparr>)
   \<and> ComputedSubject_set (sinvoke (Suc 0) throwing_env) 0 5 example_store =
     Some (Some (Thrown ''boom''),
           example_store\<lparr>objs := (objs example_store)(0 \<mapsto> ComputedObj (doubling\<lparr>c_value := 5, c_computedValue := 10\<rparr>)),
                         log := [Notified 0 (Ext 7) [10, 5]]\<rparr>)
   \<and> Subject_set (sinvoke (Suc 0) throwing_env) 1 5 example_store =
     Some (None,
           example_store\<lparr>objs := (objs example_store)(1 \<mapsto> SubjectObj (counter\<lparr>s_value := 5\<rparr>)),
                         log := [Notified 1 (Ext 7) [5], ErrorLogged (Thrown ''boom''), Notified 1 (Ext 8) [5]]\<rparr>)"
proof (intro conjI)
  show "pub (invoke (Suc 0) faulty_env) ''t'' 5 False True example_bus =
     Some (Some (Thrown ''boom''),
           example_bus\<lparr>eventCache := [(''t'', \<lparr>data = 5, synced = False\<rparr>)],
                       trace := [Invoked 1 (Direct 5), Invoked 2 (Direct 5), Invoked 3 (Direct 5),
                                 Invoked 7 (Wildcard ''t'' 5)]\<rparr>)"
    by (simp add: pub_def example_bus_def faulty_env_def pub_handlers_step pub_handlers_done
          pub_wildcards_step pub_wildcards_done call_at_def handlers_of_def emit_def)
next
  show "ComputedSubject_set (sinvoke (Suc 0) throwing_env) 0 5 example_store =
     Some (Some (Thrown ''boom''),
           example_store\<lparr>objs := (objs example_store)(0 \<mapsto> ComputedObj (doubling\<lparr>c_value := 5, c_computedValue := 10\<rparr>)),
                         log := [Notified 0 (Ext 7) [10, 5]]\<rparr>)"
    by (simp add: ComputedSubject_set_def example_store_def doubling_def throwing_env_def
          computed_loop_step computed_loop_done call_sub_at_def subs_at_def args_at_def record_entry_def)
next
  show "Subject_set (sinvoke (Suc 0) throwing_env) 1 5 example_store =
     Some (None,
           example_store\<lparr>objs := (objs example_store)(1 \<mapsto> SubjectObj (counter\<lparr>s_value := 5\<rparr>)),
                         log := [Notified 1 (Ext 7) [5], ErrorLogged (Thrown ''boom''), Notified 1 (Ext 8) [5]]\<rparr>)"
    by (simp add: Subject_set_def notify_def example_store_def counter_def throwing_env_def
          notify_loop_step notify_loop_done call_sub_at_def subs_at_def args_at_def record_entry_def)
qed

section \<open>Properties of Subject.set\<close>

lemma notify_loop_frame:
  assumes frame: "\<forall>h \<in> set (subs_of ob). \<forall>a st0. P (objs st0) \<and> objs st0 s = Some ob \<longrightarrow>
                    (\<exists>r st1. call h a st0 = Some (r, st1) \<and> P (objs st1) \<and> objs st1 s = objs st0 s
                      \<and> (\<exists>evs. log st1 = log st0 @ evs \<and> notified s evs = []))"
  shows "P (objs st) \<Longrightarrow> objs st s = Some ob \<Longrightarrow> i \<le> subLen \<Longrightarrow> subLen = length (subs_of ob) \<Longrightarrow>
     \<exists>st'. notify_loop call s i subLen st = Some st' \<and> P (objs st') \<and> objs st' s = Some ob
        \<and> (\<exists>evs. log st' = log st @ evs
              \<and> notified s evs = map (\<lambda>h. (h, args_of ob)) (drop i (subs_of ob)))"
proof (induction "subLen - i" arbitrary: i st)
  case 0
  then show ?case by (simp add: notify_loop_done)
next
  case (Suc k)
  then have lt: "i < subLen" by simp
  define h where "h = subs_of ob ! i"
  have dr: "drop i (subs_of ob) = h # drop (Suc i) (subs_of ob)"
    using lt Suc.prems by (simp add: h_def Cons_nth_drop_Suc)
  have at: "subs_at st s = subs_of ob" "args_at st s = args_of ob"
    using Suc.prems(2) by (simp_all add: subs_at_def args_at_def)
  obtain r st1 evs1 where c: "call h (args_of ob) (record_entry (Notified s h (args_of ob)) st) = Some (r, st1)"
      and p1: "P (objs st1)" and o1: "objs st1 s = Some ob"
      and l1: "log st1 = log st @ [Notified s h (args_of ob)] @ evs1" and n1: "notified s evs1 = []"
  proof -
    have m: "h \<in> set (subs_of ob)" using lt Suc.prems by (simp add: h_def)
    have pre: "P (objs (record_entry (Notified s h (args_of ob)) st))
                 \<and> objs (record_entry (Notified s h (args_of ob)) st) s = Some ob"
      using Suc.prems(1,2) by simp
    from frame[rule_format, of h "record_entry (Notified s h (args_of ob)) st" "args_of ob", OF m pre]
    obtain r st1 evs where "call h (args_of ob) (record_entry (Notified s h (args_of ob)) st) = Some (r, st1)"
      "P (objs st1)"
      "objs st1 s = objs (record_entry (Notified s h (args_of ob)) st) s"
      "log st1 = log (record_entry (Notified s h (args_of ob)) st) @ evs" "notified s evs = []"
      by (elim exE conjE)
    then show ?thesis using that[of r st1 evs] Suc.prems(2) by simp
  qed
  define st2 where "st2 = (case r of None \<Rightarrow> st1 | Some e \<Rightarrow> record_entry (ErrorLogged e) st1)"
  have o2: "objs st2 s = Some ob" using o1 by (simp add: st2_def split: option.splits)
  have p2: "P (objs st2)" using p1 by (simp add: st2_def split: option.splits)
  obtain evs2 where l2: "log st2 = log st @ [Notified s h (args_of ob)] @ evs2" and n2: "notified s evs2 = []"
  proof (cases r)
    case None
    then show ?thesis using that[of evs1] l1 n1 by (simp add: st2_def)
  next
    case (Some e)
    then show ?thesis using that[of "evs1 @ [ErrorLogged e]"] l1 n1 by (simp add: st2_def)
  qed
  have step: "notify_loop call s i subLen st = notify_loop call s (Suc i) subLen st2"
    using lt Suc.prems c at by (simp add: notify_loop_step call_sub_at_def h_def st2_def split: option.splits)
  obtain st' evs where res: "notify_loop call s (Suc i) subLen st2 = Some st'"
      and p': "P (objs st')" and o': "objs st' s = Some ob"
      and l': "log st' = log st2 @ evs"
      and n': "notified s evs = map (\<lambda>h. (h, args_of ob)) (drop (Suc i) (subs_of ob))"
  proof -
    have k: "k = subLen - Suc i" using Suc.hyps(2) by simp
    have le: "Suc i \<le> subLen" using lt by simp
    from Suc.hyps(1)[OF k p2 o2 le Suc.prems(4)] show ?thesis using that by (elim exE conjE)
  qed
  have lg: "log st' = log st @ ([Notified s h (args_of ob)] @ evs2 @ evs)"
    using l' l2 by simp
  have nt: "notified s ([Notified s h (args_of ob)] @ evs2 @ evs) =
                 map (\<lambda>h. (h, args_of ob)) (drop i (subs_of ob))"
    using n2 n' dr by simp
  have r: "notify_loop call s i subLen st = Some st'" using step res by simp
  show ?case
    using r p' o' lg nt by (intro exI[of _ st'] conjI exI[of _ "[Notified s h (args_of ob)] @ evs2 @ evs"])
qed

text \<open>
  C2, as claimed: \<open>set(x)\<close> when \<open>eq(x, c)\<close> does not hold stores the new value and then calls
  every subscriber, in subscription order, with it, whatever the subscribers are. It fails
  on the code, which fixes the number of subscribers before the loop and reads the array at
  every step. The Subject 1 has the subscribers 7 and 8, and 7 unsubscribes itself when
  called: \<open>set(5)\<close> calls 7, finds nothing at the index 1, logs the TypeError of that call,
  and never calls 8.
\<close>

theorem Subject_set_counterexample:
  "Subject_set (sinvoke (Suc 0) one_shot_subscriber) 1 5 example_store =
     Some (None,
           example_store\<lparr>objs := (objs example_store)(1 \<mapsto> SubjectObj (counter\<lparr>subs := [Ext 8], s_value := 5\<rparr>)),
                         log := [Notified 1 (Ext 7) [5], ErrorLogged TypeError]\<rparr>)"
  by (simp add: Subject_set_def notify_def example_store_def counter_def one_shot_subscriber_def unsub_def
        notify_loop_step notify_loop_done call_sub_at_def subs_at_def args_at_def record_entry_def)

text \<open>
  C2, amended. For a Subject with equality function \<open>eq\<close>, current value \<open>c\<close> and any
  subscribers: \<open>set(x)\<close> when \<open>eq(x, c)\<close> holds calls no subscriber and leaves the state as it
  is. \<open>set(x)\<close> when \<open>eq(x, c)\<close> does not hold stores the new value (through the mutate
  function when there is one, by replacement otherwise) and then calls every subscriber, in
  subscription order, with the new current value, provided that every call of a subscriber
  made meanwhile returns or throws, leaves this Subject as it is (its value and its
  subscribers) and starts no notification of this Subject. The subscribers may act on other
  subscribables, and they need to behave so only on the states the notification goes
  through: \<open>P\<close> is any property of the objects that holds once the value is stored and that
  the calls of the subscribers keep.
\<close>

theorem Subject_set_notifies:
  assumes obj: "objs st s = Some (SubjectObj x)"
  shows "(equalityFunc x v (s_value x) \<longrightarrow> Subject_set call s v st = Some (None, st))
       \<and> (\<not> equalityFunc x v (s_value x) \<longrightarrow>
            P ((objs st)(s \<mapsto> SubjectObj (x\<lparr>s_value :=
                     (case mutateFunc x of Some f \<Rightarrow> f (s_value x) v | None \<Rightarrow> v)\<rparr>))) \<longrightarrow>
            (\<forall>h \<in> set (subs x). \<forall>a st0.
                P (objs st0) \<and> objs st0 s = Some (SubjectObj (x\<lparr>s_value :=
                     (case mutateFunc x of Some f \<Rightarrow> f (s_value x) v | None \<Rightarrow> v)\<rparr>)) \<longrightarrow>
                (\<exists>r st1. call h a st0 = Some (r, st1) \<and> P (objs st1) \<and> objs st1 s = objs st0 s
                      \<and> (\<exists>evs. log st1 = log st0 @ evs \<and> notified s evs = []))) \<longrightarrow>
            (\<exists>st' evs. Subject_set call s v st = Some (None, st')
               \<and> objs st' s = Some (SubjectObj (x\<lparr>s_value :=
                     (case mutateFunc x of Some f \<Rightarrow> f (s_value x) v | None \<Rightarrow> v)\<rparr>))
               \<and> log st' = log st @ evs
               \<and> notified s evs =
                     map (\<lambda>h. (h, [case mutateFunc x of Some f \<Rightarrow> f (s_value x) v | None \<Rightarrow> v])) (subs x)))"
proof (intro conjI impI)
  assume "equalityFunc x v (s_value x)"
  then show "Subject_set call s v st = Some (None, st)"
    using obj by (simp add: Subject_set_def)
next
  define nv where "nv = (case mutateFunc x of Some f \<Rightarrow> f (s_value x) v | None \<Rightarrow> v)"
  define x' where "x' = x\<lparr>s_value := nv\<rparr>"
  define st1 where "st1 = st\<lparr>objs := (objs st)(s \<mapsto> SubjectObj x')\<rparr>"
  assume ne: "\<not> equalityFunc x v (s_value x)"
    and p0: "P ((objs st)(s \<mapsto> SubjectObj (x\<lparr>s_value :=
                     (case mutateFunc x of Some f \<Rightarrow> f (s_value x) v | None \<Rightarrow> v)\<rparr>)))"
    and fr: "\<forall>h \<in> set (subs x). \<forall>a st0.
                P (objs st0) \<and> objs st0 s = Some (SubjectObj (x\<lparr>s_value :=
                     (case mutateFunc x of Some f \<Rightarrow> f (s_value x) v | None \<Rightarrow> v)\<rparr>)) \<longrightarrow>
                (\<exists>r st1. call h a st0 = Some (r, st1) \<and> P (objs st1) \<and> objs st1 s = objs st0 s
                      \<and> (\<exists>evs. log st1 = log st0 @ evs \<and> notified s evs = []))"
  have x'_alt: "(case mutateFunc x of Some f \<Rightarrow> x\<lparr>s_value := f (s_value x) v\<rparr> | None \<Rightarrow> x\<lparr>s_value := v\<rparr>) = x'"
    by (simp add: x'_def nv_def split: option.splits)
  have o1: "objs st1 s = Some (SubjectObj x')" by (simp add: st1_def)
  have p1: "P (objs st1)" using p0 by (simp add: st1_def x'_def nv_def)
  have len: "subs_at st1 s = subs x" by (simp add: subs_at_def st1_def x'_def)
  from fr have fr': "\<forall>h \<in> set (subs_of (SubjectObj x')). \<forall>a st0.
                      P (objs st0) \<and> objs st0 s = Some (SubjectObj x') \<longrightarrow>
                      (\<exists>r st1. call h a st0 = Some (r, st1) \<and> P (objs st1) \<and> objs st1 s = objs st0 s
                      \<and> (\<exists>evs. log st1 = log st0 @ evs \<and> notified s evs = []))"
    unfolding x'_def nv_def by simp
  obtain st' evs where res: "notify_loop call s 0 (length (subs x)) st1 = Some st'"
      and o': "objs st' s = Some (SubjectObj x')" and l': "log st' = log st1 @ evs"
      and n': "notified s evs = map (\<lambda>h. (h, args_of (SubjectObj x'))) (drop 0 (subs_of (SubjectObj x')))"
  proof -
    have eq: "length (subs x) = length (subs_of (SubjectObj x'))" by (simp add: x'_def)
    from notify_loop_frame[where call = call and s = s and st = st1 and ob = "SubjectObj x'" and i = 0
           and subLen = "length (subs x)" and P = P, OF fr' p1 o1 le0 eq]
    show ?thesis using that by (elim exE conjE)
  qed
  have "Subject_set call s v st = Some (None, st')"
    using obj ne res len by (simp add: Subject_set_def x'_alt st1_def[symmetric] notify_def)
  moreover have "log st' = log st @ evs" using l' by (simp add: st1_def)
  moreover have "notified s evs = map (\<lambda>h. (h, [nv])) (subs x)"
    using n' by (simp add: x'_def)
  ultimately have fin: "Subject_set call s v st = Some (None, st') \<and> objs st' s = Some (SubjectObj x')
       \<and> log st' = log st @ evs \<and> notified s evs = map (\<lambda>h. (h, [nv])) (subs x)"
    using o' by simp
  show "\<exists>st' evs. Subject_set call s v st = Some (None, st')
               \<and> objs st' s = Some (SubjectObj (x\<lparr>s_value :=
                     (case mutateFunc x of Some f \<Rightarrow> f (s_value x) v | None \<Rightarrow> v)\<rparr>))
               \<and> log st' = log st @ evs
               \<and> notified s evs =
                     map (\<lambda>h. (h, [case mutateFunc x of Some f \<Rightarrow> f (s_value x) v | None \<Rightarrow> v])) (subs x)"
    using fin unfolding x'_def nv_def by (intro exI[of _ st'] exI[of _ evs])
qed

theorem Subject_set_notifies_witness:
  "Subject_set (sinvoke (Suc (Suc 0)) throwing_env) 1 1 mapped_store = Some (None, mapped_store)
   \<and> (\<exists>st' evs. Subject_set (sinvoke (Suc (Suc 0)) throwing_env) 1 5 mapped_store = Some (None, st')
          \<and> objs st' 1 = Some (SubjectObj (counter\<lparr>subs := [Ext 8, UpdateValue 2 0], s_value := 5\<rparr>))
          \<and> log st' = evs \<and> notified 1 evs = [(Ext 8, [5]), (UpdateValue 2 0, [5])])"
proof -
  define x where "x = counter\<lparr>subs := [Ext 8, UpdateValue 2 0]\<rparr>"
  define P where "P = (\<lambda>os :: nat \<Rightarrow> int obj option.
      \<exists>iv mv. os 2 = Some (MappedObj (successor\<lparr>inputValues := [iv], m_value := mv\<rparr>)))"
  have obj: "objs mapped_store 1 = Some (SubjectObj x)"
    by (simp add: mapped_store_def x_def)
  have sx: "subs x = [Ext 8, UpdateValue 2 0]" "s_value x = 1" "mutateFunc x = None" "equalityFunc x = (=)"
    by (simp_all add: x_def counter_def)
  have p0: "P ((objs mapped_store)(1 \<mapsto> SubjectObj (x\<lparr>s_value := 5\<rparr>)))"
    unfolding P_def
    by (intro exI[of _ 1] exI[of _ 2]) (simp add: mapped_store_def successor_def)
  have fr: "\<forall>h \<in> set (subs x). \<forall>a st0.
              P (objs st0) \<and> objs st0 1 = Some (SubjectObj (x\<lparr>s_value := 5\<rparr>)) \<longrightarrow>
              (\<exists>r st1. sinvoke (Suc (Suc 0)) throwing_env h a st0 = Some (r, st1) \<and> P (objs st1)
                 \<and> objs st1 1 = objs st0 1 \<and> (\<exists>evs. log st1 = log st0 @ evs \<and> notified 1 evs = []))"
  proof (intro ballI allI impI)
    fix h a and st0 :: "int store"
    assume h: "h \<in> set (subs x)"
      and pre: "P (objs st0) \<and> objs st0 1 = Some (SubjectObj (x\<lparr>s_value := 5\<rparr>))"
    then obtain iv mv where o2: "objs st0 2 = Some (MappedObj (successor\<lparr>inputValues := [iv], m_value := mv\<rparr>))"
      unfolding P_def by (elim exE conjE)
    from pre have o1: "objs st0 1 = Some (SubjectObj (x\<lparr>s_value := 5\<rparr>))" by simp
    from h sx consider "h = Ext 8" | "h = UpdateValue 2 0" by auto
    then show "\<exists>r st1. sinvoke (Suc (Suc 0)) throwing_env h a st0 = Some (r, st1) \<and> P (objs st1)
                 \<and> objs st1 1 = objs st0 1 \<and> (\<exists>evs. log st1 = log st0 @ evs \<and> notified 1 evs = [])"
    proof cases
      case 1
      then show ?thesis using pre by (simp add: throwing_env_def)
    next
      case 2
      show ?thesis
      proof (cases "mv = 6")
        case True
        have "sinvoke (Suc (Suc 0)) throwing_env h a st0 =
                Some (None, st0\<lparr>objs := (objs st0)(2 \<mapsto> MappedObj (successor\<lparr>inputValues := [5], m_value := 6\<rparr>))\<rparr>)"
          using 2 o1 o2 True by (simp add: MappedSubject_updateValue_def successor_def)
        then show ?thesis
          unfolding P_def by (simp add: successor_def)
      next
        case False
        have "sinvoke (Suc (Suc 0)) throwing_env h a st0 =
                Some (None, st0\<lparr>objs := (objs st0)(2 \<mapsto> MappedObj (successor\<lparr>inputValues := [5], m_value := 6\<rparr>)),
                               log := log st0 @ [Notified 2 (Ext 5) [6]]\<rparr>)"
          using 2 o1 o2 False
          by (simp add: MappedSubject_updateValue_def successor_def notify_def notify_loop_step
                notify_loop_done call_sub_at_def subs_at_def args_at_def record_entry_def throwing_env_def)
        then show ?thesis
          unfolding P_def by (simp add: successor_def)
      qed
    qed
  qed
  from Subject_set_notifies[OF obj, of 1 "sinvoke (Suc (Suc 0)) throwing_env" P]
       Subject_set_notifies[OF obj, of 5 "sinvoke (Suc (Suc 0)) throwing_env" P] p0 fr
  show ?thesis
    by (simp add: sx) (simp add: x_def mapped_store_def)
qed

section \<open>The storage adapter\<close>

lemma split_not_empty: "split c s \<noteq> []"
  by (induction s) (auto split: list.splits)

text \<open>
  C5, as claimed: a message received by the storage adapter is published locally with
  \<open>sync = false\<close>, so that it is not handed to the adapter again, and with the \<open>isCached\<close> flag
  of its payload. It fails on the code. The sender publishes \<open>1\<close> on the topic x with
  \<open>sync = true\<close> and \<open>isCached = false\<close>: nothing is cached there, and the text x,1 goes to the
  storage. The receiver of that text caches the value, marked as synced, and hands it to
  its own adapter again.
\<close>

theorem storage_receive_counterexample:
  "pub (invoke (Suc 0) returning_env) ''x'' (Some 1) True False storage_bus =
     Some (None, storage_bus\<lparr>trace := [Invoked 1 (Direct (Some 1)),
                                       SetItem ''eb.evt'' ''x,1'', RemoveItem ''eb.evt'']\<rparr>)
   \<and> storage_payload example_globals ''x'' (Some 1) = Inr ''x,1''
   \<and> Storage_receiveEvent (invoke (Suc 0) returning_env)
        \<lparr>key = Some EB_KEY, newValue = Some ''x,1''\<rparr> storage_bus =
     Some (None, storage_bus\<lparr>eventCache := [(''x'', \<lparr>data = Some 1, synced = True\<rparr>)],
                             trace := [Invoked 1 (Direct (Some 1)),
                                       SetItem ''eb.evt'' ''x,1'', RemoveItem ''eb.evt'']\<rparr>)"
  by (simp add: Storage_receiveEvent_def recvEventCb_def pub_def storage_bus_def returning_env_def
        example_globals_def storage_payload_def EB_KEY_def
        pub_handlers_step pub_handlers_done pub_wildcards_done call_at_def handlers_of_def emit_def
        syncEvent_def sendEvent_def)

text \<open>
  C5, amended: a storage event received by the storage adapter for the key eb.evt, with a
  new value that is not empty, is cut at every comma, and the first piece is the topic. With
  no second piece, \<open>(topic, undefined)\<close> is published on the owning bus; with a second piece
  that parses as JSON, \<open>(topic, parsed value)\<close> is published; with a second piece that does not
  parse (so it is for data whose JSON text holds a comma), the SyntaxError leaves
  \<open>receiveEvent\<close> and nothing is published. The publish is a local \<open>pub\<close> with
  \<open>isCached = true\<close>, the payload carrying no such flag: the data is cached and delivered to
  the local handlers as by any \<open>pub\<close>. (Nothing is said here of the \<open>sync\<close> argument of that
  publish.)
\<close>

theorem storage_receive_republishes:
  assumes "busSync w = EventBusStorageSync bid g"
      and "key e = Some EB_KEY" and "newValue e = Some s" and "s \<noteq> []"
  shows "(\<forall>topic. split CHR '','' s = [topic] \<longrightarrow>
            (\<exists>sync. Storage_receiveEvent call e w = pub call topic (undefined_value g) sync True w))
       \<and> (\<forall>topic piece rest v. split CHR '','' s = topic # piece # rest \<and> JSON_parse g piece = Inr v \<longrightarrow>
            (\<exists>sync. Storage_receiveEvent call e w = pub call topic v sync True w))
       \<and> (\<forall>topic piece rest error. split CHR '','' s = topic # piece # rest \<and> JSON_parse g piece = Inl error \<longrightarrow>
            Storage_receiveEvent call e w = Some (Some error, w))
       \<and> split CHR '','' s \<noteq> []"
proof (intro conjI allI impI)
  fix topic assume "split CHR '','' s = [topic]"
  then have "Storage_receiveEvent call e w = pub call topic (undefined_value g) True True w"
    using assms by (simp add: Storage_receiveEvent_def recvEventCb_def)
  then show "\<exists>sync. Storage_receiveEvent call e w = pub call topic (undefined_value g) sync True w"
    by blast
next
  fix topic piece rest v
  assume "split CHR '','' s = topic # piece # rest \<and> JSON_parse g piece = Inr v"
  then have "Storage_receiveEvent call e w = pub call topic v True True w"
    using assms by (simp add: Storage_receiveEvent_def recvEventCb_def)
  then show "\<exists>sync. Storage_receiveEvent call e w = pub call topic v sync True w"
    by blast
next
  fix topic piece rest error
  assume "split CHR '','' s = topic # piece # rest \<and> JSON_parse g piece = Inl error"
  then show "Storage_receiveEvent call e w = Some (Some error, w)"
    using assms by (simp add: Storage_receiveEvent_def recvEventCb_def)
next
  show "split CHR '','' s \<noteq> []" by (rule split_not_empty)
qed

theorem storage_receive_republishes_witness:
  "(\<exists>sync. Storage_receiveEvent (invoke (Suc 0) returning_env)
             \<lparr>key = Some EB_KEY, newValue = Some ''x''\<rparr> storage_bus =
           pub (invoke (Suc 0) returning_env) ''x'' None sync True storage_bus)
   \<and> (\<exists>sync. Storage_receiveEvent (invoke (Suc 0) returning_env)
             \<lparr>key = Some EB_KEY, newValue = Some ''x,1''\<rparr> storage_bus =
           pub (invoke (Suc 0) returning_env) ''x'' (Some 1) sync True storage_bus)
   \<and> Storage_receiveEvent (invoke (Suc 0) returning_env)
             \<lparr>key = Some EB_KEY, newValue = Some ''x,[1,2]''\<rparr> storage_bus =
           Some (Some SyntaxError, storage_bus)"
proof -
  have b: "busSync storage_bus = EventBusStorageSync 42 example_globals"
    by (simp add: storage_bus_def)
  have s1: "split CHR '','' ''x'' = [''x'']" by simp
  have s2: "split CHR '','' ''x,1'' = ''x'' # ''1'' # []" by simp
  have s3: "split CHR '','' ''x,[1,2]'' = ''x'' # ''[1'' # [''2]'']" by simp
  have p2: "JSON_parse example_globals ''1'' = Inr (Some 1)" by (simp add: example_globals_def)
  have p3: "JSON_parse example_globals ''[1'' = Inl SyntaxError" by (simp add: example_globals_def)
  have u: "undefined_value example_globals = None" by (simp add: example_globals_def)
  from storage_receive_republishes[OF b, of "\<lparr>key = Some EB_KEY, newValue = Some ''x''\<rparr>" "''x''"
         "invoke (Suc 0) returning_env"]
       storage_receive_republishes[OF b, of "\<lparr>key = Some EB_KEY, newValue = Some ''x,1''\<rparr>" "''x,1''"
         "invoke (Suc 0) returning_env"]
       storage_receive_republishes[OF b, of "\<lparr>key = Some EB_KEY, newValue = Some ''x,[1,2]''\<rparr>" "''x,[1,2]''"
         "invoke (Suc 0) returning_env"]
  show ?thesis
    unfolding s1 s2 s3 using p2 p3 u by simp
qed

section \<open>Handlers registered while a dispatch is running\<close>

lemma prefix_nth: "prefix xs ys \<Longrightarrow> i < length xs \<Longrightarrow> ys ! i = xs ! i"
  by (auto simp add: prefix_def nth_append)

lemma pub_handlers_snapshot:
  assumes grow: "\<forall>h a w0 r w1. call h a w0 = Some (r, w1) \<longrightarrow>
                   prefix (handlers_of w0 topic) (handlers_of w1 topic)"
  shows "prefix snap (handlers_of w topic) \<Longrightarrow> i \<le> length snap \<Longrightarrow> len = length snap \<Longrightarrow>
         pub_handlers call topic d i len w = dispatch_snapshot call d (drop i snap) w"
proof (induction "len - i" arbitrary: i w)
  case 0
  then show ?case by (simp add: pub_handlers_done)
next
  case (Suc k)
  then have lt: "i < len" by simp
  have k: "k = len - Suc i" using Suc.hyps(2) by simp
  have le: "Suc i \<le> length snap" using lt Suc.prems(3) by simp
  define h where "h = snap ! i"
  have dr: "drop i snap = h # drop (Suc i) snap"
    using lt Suc.prems(3) by (simp add: h_def Cons_nth_drop_Suc)
  have lt': "i < length (handlers_of w topic)"
    using lt Suc.prems(1,3) prefix_length_le[of snap "handlers_of w topic"] by simp
  have nth: "handlers_of w topic ! i = h"
    using prefix_nth[OF Suc.prems(1)] lt Suc.prems(3) by (simp add: h_def)
  let ?w0 = "emit (Invoked h (Direct d)) w"
  have at: "call_at call (handlers_of w topic) i (Direct d) w = call h (Direct d) ?w0"
    using lt' nth by (simp add: call_at_def)
  show ?case
  proof (cases "call h (Direct d) ?w0")
    case None
    then show ?thesis using lt at dr by (simp add: pub_handlers_step)
  next
    case (Some p)
    obtain r w1 where p: "p = (r, w1)" by (cases p)
    have "prefix (handlers_of ?w0 topic) (handlers_of w1 topic)"
      using grow Some p by blast
    then have pre: "prefix snap (handlers_of w1 topic)"
      using Suc.prems(1) by (simp add: prefix_order.trans)
    show ?thesis
    proof (cases r)
      case None
      have "pub_handlers call topic d i len w = pub_handlers call topic d (Suc i) len w1"
        using lt at Some p None by (simp add: pub_handlers_step)
      also have "\<dots> = dispatch_snapshot call d (drop (Suc i) snap) w1"
        using Suc.hyps(1)[OF k pre le Suc.prems(3)] .
      finally show ?thesis using dr Some p None by simp
    next
      case (Some e)
      have pre': "prefix snap (handlers_of (emit (ConsoleError e) w1) topic)" using pre by simp
      have "pub_handlers call topic d i len w = pub_handlers call topic d (Suc i) len (emit (ConsoleError e) w1)"
        using lt at \<open>call h (Direct d) ?w0 = Some p\<close> p Some by (simp add: pub_handlers_step)
      also have "\<dots> = dispatch_snapshot call d (drop (Suc i) snap) (emit (ConsoleError e) w1)"
        using Suc.hyps(1)[OF k pre' le Suc.prems(3)] .
      finally show ?thesis using dr \<open>call h (Direct d) ?w0 = Some p\<close> p Some by simp
    qed
  qed
qed

lemma pub_wildcards_snapshot:
  assumes grow: "\<forall>h a w0 r w1. call h a w0 = Some (r, w1) \<longrightarrow>
                   prefix (wildcardHandlers w0) (wildcardHandlers w1)"
  shows "prefix snap (wildcardHandlers w) \<Longrightarrow> i \<le> length snap \<Longrightarrow> wcLen = length snap \<Longrightarrow>
         pub_wildcards call topic d i wcLen w = wildcard_snapshot call topic d (drop i snap) w"
proof (induction "wcLen - i" arbitrary: i w)
  case 0
  then show ?case by (simp add: pub_wildcards_done)
next
  case (Suc k)
  then have lt: "i < wcLen" by simp
  have k: "k = wcLen - Suc i" using Suc.hyps(2) by simp
  have le: "Suc i \<le> length snap" using lt Suc.prems(3) by simp
  define h where "h = snap ! i"
  have dr: "drop i snap = h # drop (Suc i) snap"
    using lt Suc.prems(3) by (simp add: h_def Cons_nth_drop_Suc)
  have lt': "i < length (wildcardHandlers w)"
    using lt Suc.prems(1,3) prefix_length_le[of snap "wildcardHandlers w"] by simp
  have nth: "wildcardHandlers w ! i = h"
    using prefix_nth[OF Suc.prems(1)] lt Suc.prems(3) by (simp add: h_def)
  let ?w0 = "emit (Invoked h (Wildcard topic d)) w"
  have at: "call_at call (wildcardHandlers w) i (Wildcard topic d) w = call h (Wildcard topic d) ?w0"
    using lt' nth by (simp add: call_at_def)
  show ?case
  proof (cases "call h (Wildcard topic d) ?w0")
    case None
    then show ?thesis using lt at dr by (simp add: pub_wildcards_step)
  next
    case (Some p)
    obtain r w1 where p: "p = (r, w1)" by (cases p)
    have "prefix (wildcardHandlers ?w0) (wildcardHandlers w1)"
      using grow Some p by blast
    then have pre: "prefix snap (wildcardHandlers w1)"
      using Suc.prems(1) by (simp add: prefix_order.trans)
    show ?thesis
    proof (cases r)
      case None
      have "pub_wildcards call topic d i wcLen w = pub_wildcards call topic d (Suc i) wcLen w1"
        using lt at Some p None by (simp add: pub_wildcards_step)
      also have "\<dots> = wildcard_snapshot call topic d (drop (Suc i) snap) w1"
        using Suc.hyps(1)[OF k pre le Suc.prems(3)] .
      finally show ?thesis using dr Some p None by simp
    next
      case (Some e)
      show ?thesis
        using lt at \<open>call h (Wildcard topic d) ?w0 = Some p\<close> p Some dr by (simp add: pub_wildcards_step)
    qed
  qed
qed

lemma notify_loop_snapshot:
  assumes grow: "\<forall>h \<in> set snap. \<forall>a st0 r st1. call h a st0 = Some (r, st1) \<longrightarrow>
                   prefix (subs_at st0 s) (subs_at st1 s)"
  shows "prefix snap (subs_at st s) \<Longrightarrow> i \<le> length snap \<Longrightarrow> subLen = length snap \<Longrightarrow>
         notify_loop call s i subLen st = notify_snapshot call s (drop i snap) st"
proof (induction "subLen - i" arbitrary: i st)
  case 0
  then show ?case by (simp add: notify_loop_done)
next
  case (Suc k)
  then have lt: "i < subLen" by simp
  have k: "k = subLen - Suc i" using Suc.hyps(2) by simp
  have le: "Suc i \<le> length snap" using lt Suc.prems(3) by simp
  define h where "h = snap ! i"
  have dr: "drop i snap = h # drop (Suc i) snap"
    using lt Suc.prems(3) by (simp add: h_def Cons_nth_drop_Suc)
  have lt': "i < length (subs_at st s)"
    using lt Suc.prems(1,3) prefix_length_le[of snap "subs_at st s"] by simp
  have nth: "subs_at st s ! i = h"
    using prefix_nth[OF Suc.prems(1)] lt Suc.prems(3) by (simp add: h_def)
  let ?st0 = "record_entry (Notified s h (args_at st s)) st"
  have at: "call_sub_at call s i st = call h (args_at st s) ?st0"
    using lt' nth by (simp add: call_sub_at_def)
  show ?case
  proof (cases "call h (args_at st s) ?st0")
    case None
    then show ?thesis using lt at dr by (simp add: notify_loop_step)
  next
    case (Some p)
    obtain r st1 where p: "p = (r, st1)" by (cases p)
    have "h \<in> set snap" using lt Suc.prems(3) by (simp add: h_def)
    then have "prefix (subs_at ?st0 s) (subs_at st1 s)"
      using grow Some p by blast
    then have pre: "prefix snap (subs_at st1 s)"
      using Suc.prems(1) by (simp add: prefix_order.trans)
    show ?thesis
    proof (cases r)
      case None
      have "notify_loop call s i subLen st = notify_loop call s (Suc i) subLen st1"
        using lt at Some p None by (simp add: notify_loop_step)
      also have "\<dots> = notify_snapshot call s (drop (Suc i) snap) st1"
        using Suc.hyps(1)[OF k pre le Suc.prems(3)] .
      finally show ?thesis using dr Some p None by simp
    next
      case (Some e)
      have pre': "prefix snap (subs_at (record_entry (ErrorLogged e) st1) s)" using pre by simp
      have "notify_loop call s i subLen st = notify_loop call s (Suc i) subLen (record_entry (ErrorLogged e) st1)"
        using lt at \<open>call h (args_at st s) ?st0 = Some p\<close> p Some by (simp add: notify_loop_step)
      also have "\<dots> = notify_snapshot call s (drop (Suc i) snap) (record_entry (ErrorLogged e) st1)"
        using Suc.hyps(1)[OF k pre' le Suc.prems(3)] .
      finally show ?thesis using dr \<open>call h (args_at st s) ?st0 = Some p\<close> p Some by simp
    qed
  qed
qed

text \<open>
  C8, as claimed: a handler registered from within a callback during a dispatch is not called
  by the dispatch in progress. It fails on the code, which fixes the length of the list before
  the loop and reads the list at every step: the handler 1 unregisters the handler 2 and
  registers the handler 9, which takes the place of 2 and is called by the same loop. So it
  is for the direct handlers of \<open>pub\<close>, for its wildcard handlers and for \<open>notify\<close>.
\<close>

theorem added_handler_called_counterexample:
  "pub (invoke (Suc (Suc 0)) swapping_env) ''t'' 5 False False
       (example_bus\<lparr>wildcardHandlers := [1, 2]\<rparr>) =
     Some (None, example_bus\<lparr>topicHandlersMap := [''t'' \<mapsto> [1, 3, 9]], wildcardHandlers := [1, 9],
                   trace := [Invoked 1 (Direct 5), Invoked 3 (Direct 5), Invoked 9 (Direct 5),
                             Invoked 1 (Wildcard ''t'' 5), Invoked 9 (Wildcard ''t'' 5)]\<rparr>)
   \<and> notify (sinvoke (Suc (Suc 0)) swapping_subscriber) 1 example_store =
     Some (example_store\<lparr>objs := (objs example_store)(1 \<mapsto> SubjectObj (counter\<lparr>subs := [Ext 7, Ext 9]\<rparr>)),
             log := [Notified 1 (Ext 7) [1], Notified 1 (Ext 9) [1]]\<rparr>)"
  by (simp add: pub_def example_bus_def swapping_env_def pub_handlers_step pub_handlers_done
        pub_wildcards_step pub_wildcards_done call_at_def handlers_of_def emit_def
        EventBus_on_def EventBus_off_def onAll_def offAll_def
        notify_def example_store_def counter_def swapping_subscriber_def sub_def unsub_def
        notify_loop_step notify_loop_done call_sub_at_def subs_at_def args_at_def record_entry_def)

text \<open>
  C8, amended: when no handler is removed from a list while a loop over it runs (the callbacks
  only ever lengthen the list), \<open>pub\<close> and \<open>notify\<close> do what a dispatch over a snapshot of the
  list does: each loop calls exactly the handlers that were in its list when it began, in
  order, and a handler appended from within a callback is not called by that loop. (Such a
  handler may still be called once by \<open>on\<close> itself, replaying the cached value, and a wildcard
  handler registered by a direct handler is in the list when the wildcard loop begins.)
\<close>

theorem dispatch_over_snapshot:
  "((\<forall>h a w0 r w1. call h a w0 = Some (r, w1) \<longrightarrow>
        prefix (handlers_of w0 topic) (handlers_of w1 topic)
      \<and> prefix (wildcardHandlers w0) (wildcardHandlers w1))
    \<longrightarrow> pub call topic d sync isCached w = pub_snapshot call topic d sync isCached w)
   \<and> ((\<forall>h \<in> set (subs_at st s). \<forall>a st0 r st1. scall h a st0 = Some (r, st1) \<longrightarrow>
        prefix (subs_at st0 s) (subs_at st1 s))
    \<longrightarrow> notify scall s st = notify_snapshot scall s (subs_at st s) st)"
proof (intro conjI impI)
  assume grow: "\<forall>h a w0 r w1. call h a w0 = Some (r, w1) \<longrightarrow>
        prefix (handlers_of w0 topic) (handlers_of w1 topic)
      \<and> prefix (wildcardHandlers w0) (wildcardHandlers w1)"
  then have g1: "\<forall>h a w0 r w1. call h a w0 = Some (r, w1) \<longrightarrow>
        prefix (handlers_of w0 topic) (handlers_of w1 topic)"
    and g2: "\<forall>h a w0 r w1. call h a w0 = Some (r, w1) \<longrightarrow>
        prefix (wildcardHandlers w0) (wildcardHandlers w1)"
    by blast+
  define w1 where "w1 = (if isCached
                then w\<lparr>eventCache := AList.update topic \<lparr>data = d, synced = sync\<rparr> (eventCache w)\<rparr>
                else w)"
  have direct: "(case topicHandlersMap w1 topic of
                 Some handlers \<Rightarrow> pub_handlers call topic d 0 (length handlers) w1
               | None \<Rightarrow> Some w1) = dispatch_snapshot call d (handlers_of w1 topic) w1"
  proof (cases "topicHandlersMap w1 topic")
    case None
    then show ?thesis by (simp add: handlers_of_def)
  next
    case (Some hs)
    then have h: "handlers_of w1 topic = hs" by (simp add: handlers_of_def)
    have "pub_handlers call topic d 0 (length hs) w1 = dispatch_snapshot call d (drop 0 hs) w1"
      using pub_handlers_snapshot[OF g1, of hs w1 0 "length hs" d] h by simp
    then show ?thesis using Some h by simp
  qed
  have wild: "pub_wildcards call topic d 0 (length (wildcardHandlers w3)) w3 =
              wildcard_snapshot call topic d (wildcardHandlers w3) w3" for w3
    using pub_wildcards_snapshot[OF g2, of "wildcardHandlers w3" w3 0 "length (wildcardHandlers w3)" topic d]
    by simp
  show "pub call topic d sync isCached w = pub_snapshot call topic d sync isCached w"
    unfolding pub_def pub_snapshot_def Let_def w1_def[symmetric] direct
    by (simp add: wild split: option.splits prod.splits)
next
  assume grow: "\<forall>h \<in> set (subs_at st s). \<forall>a st0 r st1. scall h a st0 = Some (r, st1) \<longrightarrow>
        prefix (subs_at st0 s) (subs_at st1 s)"
  show "notify scall s st = notify_snapshot scall s (subs_at st s) st"
    using notify_loop_snapshot[where snap = "subs_at st s" and st = st and i = 0
            and subLen = "length (subs_at st s)", OF grow]
    by (simp add: notify_def)
qed

theorem dispatch_over_snapshot_witness:
  "pub (invoke (Suc (Suc 0)) adding_env) ''t'' 5 False True example_bus =
     pub_snapshot (invoke (Suc (Suc 0)) adding_env) ''t'' 5 False True example_bus
   \<and> notify (sinvoke (Suc (Suc 0)) adding_subscriber) 1 example_store =
     notify_snapshot (sinvoke (Suc (Suc 0)) adding_subscriber) 1 (subs_at example_store 1) example_store"
proof -
  have g: "\<forall>h a w0 r w1. invoke (Suc (Suc 0)) adding_env h a w0 = Some (r, w1) \<longrightarrow>
        prefix (handlers_of w0 ''t'') (handlers_of w1 ''t'')
      \<and> prefix (wildcardHandlers w0) (wildcardHandlers w1)"
    by (auto simp add: adding_env_def EventBus_on_def onAll_def handlers_of_def emit_def Let_def
          split: option.splits if_splits)
  have sg: "\<forall>h \<in> set (subs_at example_store 1). \<forall>a st0 r st1.
        sinvoke (Suc (Suc 0)) adding_subscriber h a st0 = Some (r, st1) \<longrightarrow>
        prefix (subs_at st0 1) (subs_at st1 1)"
    by (auto simp add: example_store_def counter_def adding_subscriber_def sub_def subs_at_def
          split: option.splits if_splits)
  from dispatch_over_snapshot[where call = "invoke (Suc (Suc 0)) adding_env" and topic = "''t''"
         and d = 5 and sync = False and isCached = True and w = example_bus
         and scall = "sinvoke (Suc (Suc 0)) adding_subscriber" and s = 1 and st = example_store]
       g sg
  show ?thesis by blast
qed

section \<open>Properties of the filters\<close>

lemma advance_done:
  "\<not> less_than ops (add ops prev trigger) currentTime \<Longrightarrow> advance ops trigger currentTime prev = Some prev"
  by (subst advance.simps) simp

lemma advance_step:
  "less_than ops (add ops prev trigger) currentTime \<Longrightarrow>
   advance ops trigger currentTime prev = advance ops trigger currentTime (add ops prev trigger)"
  by (subst advance.simps) simp

lemma exact_numbers_simps [simp]:
  "literal exact_numbers k = of_int k"
  "add exact_numbers a b = a + b"
  "subtract exact_numbers a b = a - b"
  "multiply exact_numbers a b = a * b"
  "divide_by exact_numbers a b = a / b"
  "less_than exact_numbers a b \<longleftrightarrow> a < b"
  "at_most exact_numbers a b \<longleftrightarrow> a \<le> b"
  "strict_neq exact_numbers a b \<longleftrightarrow> a \<noteq> b"
  "Math_round exact_numbers a = of_int \<lfloor>a + 1 / 2\<rfloor>"
  "Math_pow exact_numbers a b = (if 0 \<le> b then a ^ nat \<lfloor>b\<rfloor> else 1 / a ^ nat \<lfloor>- b\<rfloor>)"
  by (simp_all add: exact_numbers_def)

text \<open>
  C7, as claimed: of the values received at 0, 60 and 140 ms by a chain built with
  \<open>atFrequency(10)\<close> at 0 ms, those of 0 and 140 ms reach the final handler. It fails on the
  code: the filter starts its clock when the chain is built, so the value of 0 ms comes
  before a period has passed and is held back too.
\<close>

theorem atFrequency_counterexample:
  "deliveries exact_numbers (atFrequency exact_numbers 0 10 plain) [(0, 1), (60, 2), (140, 3)] =
     Some (Consumer (PreviousTime 100) (Some (AtFrequency 100, plain)), [3])"
  by (simp add: atFrequency_def plain_def advance_step advance_done)

text \<open>
  C7, amended: for a chain built with \<open>atFrequency(10)\<close> (period 100 ms) at 0 ms that receives
  values at 0, 60 and 140 ms, exactly the value of 140 ms reaches the final handler (those of
  0 and 60 ms are held back), and afterwards the reference time of the filter is 100, a
  multiple of the period, not 140.
\<close>

theorem atFrequency_forwards_after_a_period:
  "\<exists>c. deliveries exact_numbers (atFrequency exact_numbers 0 10 plain) [(0, a), (60, b), (140, v)] = Some (c, [v])
       \<and> state c = PreviousTime 100"
  by (simp add: atFrequency_def plain_def advance_step advance_done)

text \<open>
  C10. A chain built with \<open>withPrecision(n)\<close> starts with the last forwarded value 0, before
  anything was forwarded: the first value it receives is held back, and the chain left as it
  is, whenever that value rounds to 0 at \<open>n\<close> decimal places, that is, whenever
  \<^verbatim>\<open>Math.round(value * Math.pow(10, n)) / Math.pow(10, n) !== 0\<close> is false; whatever the
  arithmetic of the host makes of these operations.
\<close>

theorem withPrecision_suppresses_initial_zero:
  "state (withPrecision ops n this) = LastValue (literal ops 0)
   \<and> (\<not> strict_neq ops (valueAtPrecision ops n d) (literal ops 0) \<longrightarrow>
        Consumer_with ops now (withPrecision ops n this) d = Some (withPrecision ops n this, None))"
  by (simp add: withPrecision_def)

theorem withPrecision_suppresses_initial_zero_witness:
  "\<not> strict_neq exact_numbers (valueAtPrecision exact_numbers 1 (1 / 32)) (literal exact_numbers 0)
   \<and> Consumer_with exact_numbers 0 (withPrecision exact_numbers 1 plain) (1 / 32) =
       Some (withPrecision exact_numbers 1 plain, None)"
proof -
  have z: "valueAtPrecision exact_numbers 1 (1 / 32) = 0"
    by (simp add: valueAtPrecision_def multiplier_def floor_eq_iff)
  from withPrecision_suppresses_initial_zero[of exact_numbers 1 plain "1 / 32" 0] z
  show ?thesis by simp
qed

section \<open>A destroyed MappedSubject\<close>

lemma count_list_remove1:
  "count_list (remove1 g xs) h = (if g = h then count_list xs h - 1 else count_list xs h)"
  by (induction xs) auto

lemma unsub_count:
  assumes "objs (unsub inp g st) s = Some ob'"
  shows "\<exists>ob. objs st s = Some ob
           \<and> count_list (subs_of ob') h =
               (if s = inp \<and> g = h then count_list (subs_of ob) h - 1 else count_list (subs_of ob) h)"
  using assms by (auto simp add: unsub_def count_list_remove1 split: option.splits if_splits)

lemma destroy_loop_counts:
  "(\<forall>s ob. objs st s = Some ob \<longrightarrow> count_list (subs_of ob) h \<le> count_list ps (s, h)) \<Longrightarrow>
   objs (destroy_loop ps st) s = Some ob' \<Longrightarrow> count_list (subs_of ob') h = 0"
proof (induction ps arbitrary: st)
  case Nil
  then show ?case by simp
next
  case (Cons p ps)
  obtain inp g where p: "p = (inp, g)" by (cases p)
  have inv: "\<forall>s ob. objs (unsub inp g st) s = Some ob \<longrightarrow> count_list (subs_of ob) h \<le> count_list ps (s, h)"
  proof (intro allI impI)
    fix s ob assume a: "objs (unsub inp g st) s = Some ob"
    from unsub_count[OF a, of h] obtain ob0 where o: "objs st s = Some ob0"
      and c: "count_list (subs_of ob) h =
               (if s = inp \<and> g = h then count_list (subs_of ob0) h - 1 else count_list (subs_of ob0) h)"
      by blast
    have "count_list (subs_of ob0) h \<le> count_list (p # ps) (s, h)" using Cons.prems(1) o by blast
    then show "count_list (subs_of ob) h \<le> count_list ps (s, h)"
      using c p by (auto split: if_splits)
  qed
  from Cons.prems(2) have "objs (destroy_loop ps (unsub inp g st)) s = Some ob'" by (simp add: p)
  from Cons.IH[OF inv this] show ?case .
qed

lemma destroy_loop_other:
  "objs st m = Some (MappedObj x) \<Longrightarrow>
   \<exists>x'. objs (destroy_loop ps st) m = Some (MappedObj x') \<and> m_value x' = m_value x"
proof (induction ps arbitrary: st x)
  case Nil
  then show ?case by simp
next
  case (Cons p ps)
  obtain inp g where p: "p = (inp, g)" by (cases p)
  have "\<exists>x1. objs (unsub inp g st) m = Some (MappedObj x1) \<and> m_value x1 = m_value x"
    using Cons.prems by (auto simp add: unsub_def split: option.splits)
  then obtain x1 where o: "objs (unsub inp g st) m = Some (MappedObj x1)" and v: "m_value x1 = m_value x"
    by blast
  from Cons.IH[OF o] v show ?case by (simp add: p)
qed

lemma destroy_loop_log [simp]: "log (destroy_loop ps st) = log st"
  by (induction ps st rule: destroy_loop.induct) (auto simp add: unsub_def split: option.splits)

lemma destroy_frozen:
  assumes "objs st m = Some (MappedObj x)" and "wired m x st"
  shows "frozen m (m_value x) (MappedSubject_destroy m st)"
proof -
  have d: "MappedSubject_destroy m st = destroy_loop (zip (inputs x) (inputHandlers x)) st"
    using assms(1) by (simp add: MappedSubject_destroy_def)
  have "detached m (MappedSubject_destroy m st)"
    unfolding detached_def d
  proof (intro allI impI)
    fix s ob index
    assume a: "objs (destroy_loop (zip (inputs x) (inputHandlers x)) st) s = Some ob"
    have "\<forall>s ob. objs st s = Some ob \<longrightarrow>
            count_list (subs_of ob) (UpdateValue m index)
              \<le> count_list (zip (inputs x) (inputHandlers x)) (s, UpdateValue m index)"
      using assms(2) by (simp add: wired_def)
    from destroy_loop_counts[OF this a] show "UpdateValue m index \<notin> set (subs_of ob)"
      by (simp add: count_list_0_iff)
  qed
  moreover have "\<exists>x'. objs (MappedSubject_destroy m st) m = Some (MappedObj x') \<and> m_value x' = m_value x"
    unfolding d using destroy_loop_other[OF assms(1)] .
  ultimately show ?thesis by (simp add: frozen_def)
qed

lemma silent_refl [simp]: "silent m st st"
  by (simp add: silent_def)

lemma silent_trans: "silent m a b \<Longrightarrow> silent m b c \<Longrightarrow> silent m a c"
  by (auto simp add: silent_def)

lemma silent_log: "log st' = log st \<Longrightarrow> silent m st st'"
  by (simp add: silent_def)

lemma silent_record: "(\<forall>h a. e \<noteq> Notified m h a) \<Longrightarrow> silent m st (record_entry e st)"
  by (cases e) (auto simp add: silent_def)

lemma frozen_record [simp]: "frozen m v (record_entry e st) = frozen m v st"
  by (simp add: frozen_def detached_def)

lemma frozen_subs: "frozen m v st \<Longrightarrow> objs st s = Some ob \<Longrightarrow> UpdateValue m index \<notin> set (subs_of ob)"
  by (auto simp add: frozen_def detached_def)

lemma frozen_not_mapped:
  "frozen m v st \<Longrightarrow> objs st s = Some (SubjectObj x) \<Longrightarrow> s \<noteq> m"
  "frozen m v st \<Longrightarrow> objs st s = Some (ComputedObj y) \<Longrightarrow> s \<noteq> m"
  by (auto simp add: frozen_def)

lemma frozen_update:
  assumes "frozen m v st"
      and "\<forall>index. UpdateValue m index \<notin> set (subs_of ob')"
      and "s = m \<longrightarrow> (\<exists>x. ob' = MappedObj x \<and> m_value x = v)"
  shows "frozen m v (st\<lparr>objs := (objs st)(s \<mapsto> ob')\<rparr>)"
  using assms by (auto simp add: frozen_def detached_def)

lemma call_sub_at_keeps:
  assumes k: "keeps m v call" and ne: "s \<noteq> m" and f: "frozen m v st"
      and c: "call_sub_at call s i st = Some (r, st1)"
  shows "frozen m v st1 \<and> silent m st st1"
proof (cases "i < length (subs_at st s)")
  case False
  then show ?thesis using c f by (simp add: call_sub_at_def)
next
  case True
  define h where "h = subs_at st s ! i"
  define st0 where "st0 = record_entry (Notified s h (args_at st s)) st"
  have mem: "h \<in> set (subs_at st s)" using True by (simp add: h_def)
  have nb: "\<forall>index. h \<noteq> UpdateValue m index"
  proof (cases "objs st s")
    case None
    then show ?thesis using mem by (simp add: subs_at_def)
  next
    case (Some ob)
    then show ?thesis using mem frozen_subs[OF f Some] by (auto simp add: subs_at_def)
  qed
  have f0: "frozen m v st0" using f by (simp add: st0_def)
  have s0: "silent m st st0" unfolding st0_def using ne by (intro silent_record) simp
  have "call h (args_at st s) st0 = Some (r, st1)"
    using c True by (simp add: call_sub_at_def h_def st0_def)
  with k nb f0 have "frozen m v st1 \<and> silent m st0 st1"
    unfolding keeps_def by blast
  then show ?thesis using s0 silent_trans by blast
qed

lemma notify_loop_keeps:
  assumes k: "keeps m v call" and ne: "s \<noteq> m"
  shows "frozen m v st \<Longrightarrow> notify_loop call s i len st = Some st' \<Longrightarrow>
         frozen m v st' \<and> silent m st st'"
proof (induction "len - i" arbitrary: i st)
  case 0
  then show ?case by (simp add: notify_loop_done)
next
  case (Suc n)
  then have lt: "i < len" by simp
  have n: "n = len - Suc i" using Suc.hyps(2) by simp
  from Suc.prems(2) lt obtain r st1 where c: "call_sub_at call s i st = Some (r, st1)"
    by (cases "call_sub_at call s i st") (auto simp add: notify_loop_step)
  from call_sub_at_keeps[OF k ne Suc.prems(1) c]
  have f1: "frozen m v st1" and s1: "silent m st st1" by simp_all
  define st2 where "st2 = (case r of None \<Rightarrow> st1 | Some e \<Rightarrow> record_entry (ErrorLogged e) st1)"
  have f2: "frozen m v st2" using f1 by (simp add: st2_def split: option.splits)
  have s2: "silent m st1 st2"
    by (cases r) (simp_all add: st2_def silent_record)
  have "notify_loop call s (Suc i) len st2 = Some st'"
    using Suc.prems(2) lt c by (simp add: notify_loop_step st2_def split: option.splits)
  from Suc.hyps(1)[OF n f2 this] have "frozen m v st'" and "silent m st2 st'" by simp_all
  then show ?case using s1 s2 silent_trans by blast
qed

lemma computed_loop_keeps:
  assumes k: "keeps m v call" and ne: "s \<noteq> m"
  shows "frozen m v st \<Longrightarrow> computed_loop call s i len st = Some (r, st') \<Longrightarrow>
         frozen m v st' \<and> silent m st st'"
proof (induction "len - i" arbitrary: i st)
  case 0
  then show ?case by (simp add: computed_loop_done)
next
  case (Suc n)
  then have lt: "i < len" by simp
  have n: "n = len - Suc i" using Suc.hyps(2) by simp
  from Suc.prems(2) lt obtain r1 st1 where c: "call_sub_at call s i st = Some (r1, st1)"
    by (cases "call_sub_at call s i st") (auto simp add: computed_loop_step)
  from call_sub_at_keeps[OF k ne Suc.prems(1) c]
  have f1: "frozen m v st1" and s1: "silent m st st1" by simp_all
  show ?case
  proof (cases r1)
    case None
    then have "computed_loop call s (Suc i) len st1 = Some (r, st')"
      using Suc.prems(2) lt c by (simp add: computed_loop_step)
    from Suc.hyps(1)[OF n f1 this] show ?thesis using s1 silent_trans by blast
  next
    case (Some e)
    then have "st' = st1" using Suc.prems(2) lt c by (simp add: computed_loop_step)
    then show ?thesis using f1 s1 by simp
  qed
qed

lemma Subject_set_keeps:
  assumes k: "keeps m v call" and f: "frozen m v st"
      and r: "Subject_set call s u st = Some (r, st')"
  shows "frozen m v st' \<and> silent m st st'"
proof (cases "objs st s")
  case None
  then show ?thesis using r f by (simp add: Subject_set_def)
next
  case (Some ob)
  show ?thesis
  proof (cases ob)
    case (SubjectObj x)
    have ne: "s \<noteq> m" using frozen_not_mapped(1)[OF f] Some SubjectObj by simp
    show ?thesis
    proof (cases "equalityFunc x u (s_value x)")
      case True
      then show ?thesis using r f Some SubjectObj by (simp add: Subject_set_def)
    next
      case False
      define x' where "x' = (case mutateFunc x of
                         Some g \<Rightarrow> x\<lparr>s_value := g (s_value x) u\<rparr>
                       | None \<Rightarrow> x\<lparr>s_value := u\<rparr>)"
      define st1 where "st1 = st\<lparr>objs := (objs st)(s \<mapsto> SubjectObj x')\<rparr>"
      have sx: "subs_of (SubjectObj x') = subs_of ob"
        by (simp add: x'_def SubjectObj split: option.splits)
      have f1: "frozen m v st1"
        unfolding st1_def using ne frozen_subs[OF f Some] sx by (intro frozen_update[OF f]) simp_all
      have s1: "silent m st st1" by (simp add: st1_def silent_log)
      have eq: "Subject_set call s u st =
                  (case notify call s st1 of None \<Rightarrow> None | Some st'' \<Rightarrow> Some (None, st''))"
        using Some SubjectObj False by (simp add: Subject_set_def x'_def st1_def)
      from r obtain st2 where n: "notify call s st1 = Some st2" and e: "st' = st2"
        unfolding eq by (cases "notify call s st1") auto
      from notify_loop_keeps[OF k ne f1 n[unfolded notify_def]] e s1 silent_trans
      show ?thesis by blast
    qed
  next
    case (MappedObj x)
    then show ?thesis using r f Some by (simp add: Subject_set_def)
  next
    case (ComputedObj x)
    then show ?thesis using r f Some by (simp add: Subject_set_def)
  qed
qed

lemma ComputedSubject_set_keeps:
  assumes k: "keeps m v call" and f: "frozen m v st"
      and r: "ComputedSubject_set call s u st = Some (r, st')"
  shows "frozen m v st' \<and> silent m st st'"
proof (cases "objs st s")
  case None
  then show ?thesis using r f by (simp add: ComputedSubject_set_def)
next
  case (Some ob)
  show ?thesis
  proof (cases ob)
    case (ComputedObj x)
    have ne: "s \<noteq> m" using frozen_not_mapped(2)[OF f] Some ComputedObj by simp
    have nb: "\<forall>index. UpdateValue m index \<notin> set (c_subs x)"
      using frozen_subs[OF f Some] ComputedObj by simp
    show ?thesis
    proof (cases "computeFn x u \<noteq> c_computedValue x")
      case False
      have "frozen m v (st\<lparr>objs := (objs st)(s \<mapsto> ComputedObj (x\<lparr>c_value := u\<rparr>))\<rparr>)"
        using ne nb by (intro frozen_update[OF f]) simp_all
      then show ?thesis using r Some ComputedObj False
        by (auto simp add: ComputedSubject_set_def silent_log)
    next
      case True
      define st1 where "st1 = st\<lparr>objs := (objs st)(s \<mapsto> ComputedObj (x\<lparr>c_value := u, c_computedValue := computeFn x u\<rparr>))\<rparr>"
      have f1: "frozen m v st1"
        unfolding st1_def using ne nb by (intro frozen_update[OF f]) simp_all
      have s1: "silent m st st1" by (simp add: st1_def silent_log)
      have "computed_loop call s 0 (length (subs_at st1 s)) st1 = Some (r, st')"
        using r Some ComputedObj True by (simp add: ComputedSubject_set_def st1_def Let_def)
      from computed_loop_keeps[OF k ne f1 this] s1 silent_trans show ?thesis by blast
    qed
  next
    case (SubjectObj x)
    then show ?thesis using r f Some by (simp add: ComputedSubject_set_def)
  next
    case (MappedObj x)
    then show ?thesis using r f Some by (simp add: ComputedSubject_set_def)
  qed
qed

lemma updateValue_keeps:
  assumes k: "keeps m v call" and ne: "m' \<noteq> m" and f: "frozen m v st"
      and r: "MappedSubject_updateValue call m' index st = Some (r, st')"
  shows "frozen m v st' \<and> silent m st st'"
proof (cases "objs st m'")
  case None
  then show ?thesis using r f by (simp add: MappedSubject_updateValue_def)
next
  case (Some ob)
  show ?thesis
  proof (cases ob)
    case (MappedObj x)
    have nb: "\<forall>i. UpdateValue m i \<notin> set (m_subs x)"
      using frozen_subs[OF f Some] MappedObj by simp
    show ?thesis
    proof (cases "index < length (inputs x)")
      case False
      then show ?thesis using r f Some MappedObj by (simp add: MappedSubject_updateValue_def)
    next
      case True
      show ?thesis
      proof (cases "objs st (inputs x ! index)")
        case None
        then show ?thesis using r f Some MappedObj True by (simp add: MappedSubject_updateValue_def)
      next
        case (Some inp)
        define vals where "vals = (if index < length (inputValues x)
                              then (inputValues x)[index := get inp]
                              else inputValues x @ [get inp])"
        define u where "u = mapFunc x vals (Some (m_value x))"
        define x1 where "x1 = x\<lparr>inputValues := vals\<rparr>"
        show ?thesis
        proof (cases "m_equalityFunc x (m_value x) u")
          case True
          have "st' = st\<lparr>objs := (objs st)(m' \<mapsto> MappedObj x1)\<rparr>"
            using r \<open>objs st m' = Some ob\<close> MappedObj \<open>index < length (inputs x)\<close> Some True
            by (simp add: MappedSubject_updateValue_def Let_def vals_def u_def x1_def)
          moreover have "frozen m v (st\<lparr>objs := (objs st)(m' \<mapsto> MappedObj x1)\<rparr>)"
            using ne nb by (intro frozen_update[OF f]) (simp_all add: x1_def)
          ultimately show ?thesis by (simp add: silent_log)
        next
          case False
          define x2 where "x2 = (case m_mutateFunc x of
                                    Some g \<Rightarrow> x1\<lparr>m_value := g (m_value x) u\<rparr>
                                  | None \<Rightarrow> x1\<lparr>m_value := u\<rparr>)"
          define st1 where "st1 = st\<lparr>objs := (objs st)(m' \<mapsto> MappedObj x2)\<rparr>"
          have sx: "m_subs x2 = m_subs x" by (simp add: x2_def x1_def split: option.splits)
          have f1: "frozen m v st1"
            unfolding st1_def using ne nb sx by (intro frozen_update[OF f]) simp_all
          have s1: "silent m st st1" by (simp add: st1_def silent_log)
          have eq: "MappedSubject_updateValue call m' index st =
                      (case notify call m' st1 of None \<Rightarrow> None | Some st'' \<Rightarrow> Some (None, st''))"
            using \<open>objs st m' = Some ob\<close> MappedObj \<open>index < length (inputs x)\<close> Some False
            unfolding st1_def x2_def x1_def u_def vals_def
            by (simp add: MappedSubject_updateValue_def Let_def)
          from r obtain st2 where n: "notify call m' st1 = Some st2" and e: "st' = st2"
            unfolding eq by (cases "notify call m' st1") auto
          from notify_loop_keeps[OF k ne f1 n[unfolded notify_def]] e s1 silent_trans
          show ?thesis by blast
        qed
      qed
    qed
  next
    case (SubjectObj x)
    then show ?thesis using r f Some by (simp add: MappedSubject_updateValue_def)
  next
    case (ComputedObj x)
    then show ?thesis using r f Some by (simp add: MappedSubject_updateValue_def)
  qed
qed

lemma frozen_with_subs:
  assumes f: "frozen m v st" and o: "objs st s = Some ob"
      and nb: "\<forall>index. UpdateValue m index \<notin> set hs"
  shows "frozen m v (st\<lparr>objs := (objs st)(s \<mapsto> with_subs hs ob)\<rparr>)"
proof (intro frozen_update[OF f])
  show "\<forall>index. UpdateValue m index \<notin> set (subs_of (with_subs hs ob))" using nb by simp
  show "s = m \<longrightarrow> (\<exists>x. with_subs hs ob = MappedObj x \<and> m_value x = v)"
    using f o by (auto simp add: frozen_def)
qed

lemma unsub_keeps: "frozen m v st \<Longrightarrow> frozen m v (unsub s g st)"
proof (cases "objs st s")
  case None
  then show "frozen m v st \<Longrightarrow> frozen m v (unsub s g st)" by (simp add: unsub_def)
next
  case (Some ob)
  assume f: "frozen m v st"
  have "\<forall>index. UpdateValue m index \<notin> set (remove1 g (subs_of ob))"
    using frozen_subs[OF f Some] by (auto dest: notin_set_remove1)
  from frozen_with_subs[OF f Some this] show "frozen m v (unsub s g st)"
    using Some by (simp add: unsub_def)
qed

lemma unsub_log [simp]: "log (unsub s g st) = log st"
  by (simp add: unsub_def split: option.splits)

lemma destroy_loop_keeps: "frozen m v st \<Longrightarrow> frozen m v (destroy_loop ps st)"
  by (induction ps st rule: destroy_loop.induct) (simp_all add: unsub_keeps)

lemma destroy_keeps: "frozen m v st \<Longrightarrow> frozen m v (MappedSubject_destroy m' st)"
  by (simp add: MappedSubject_destroy_def destroy_loop_keeps split: option.splits obj.splits)

lemma destroy_log [simp]: "log (MappedSubject_destroy m' st) = log st"
  by (simp add: MappedSubject_destroy_def split: option.splits obj.splits)

lemma sub_keeps:
  assumes k: "keeps m v call" and f: "frozen m v st"
      and r: "sub call s (Ext h) initialNotify st = Some (r, st')"
  shows "frozen m v st' \<and> silent m st st'"
proof (cases "objs st s")
  case None
  then show ?thesis using r f by (simp add: sub_def)
next
  case (Some ob)
  define st1 where "st1 = st\<lparr>objs := (objs st)(s \<mapsto> with_subs (subs_of ob @ [Ext h]) ob)\<rparr>"
  have "\<forall>index. UpdateValue m index \<notin> set (subs_of ob @ [Ext h])"
    using frozen_subs[OF f Some] by simp
  from frozen_with_subs[OF f Some this] have f1: "frozen m v st1" by (simp add: st1_def)
  have s1: "silent m st st1" by (simp add: st1_def silent_log)
  show ?thesis
  proof (cases initialNotify)
    case False
    then show ?thesis using r Some f1 s1 by (simp add: sub_def st1_def)
  next
    case True
    define st2 where "st2 = record_entry (InitialNotify s (Ext h) (args_of ob)) st1"
    have f2: "frozen m v st2" using f1 by (simp add: st2_def)
    have s2: "silent m st1 st2" unfolding st2_def by (intro silent_record) simp
    have "call (Ext h) (args_of ob) st2 = Some (r, st')"
      using r Some True by (simp add: sub_def st1_def st2_def)
    with k f2 have "frozen m v st' \<and> silent m st2 st'" unfolding keeps_def by blast
    then show ?thesis using s1 s2 silent_trans by blast
  qed
qed

lemma exec_scmd_keeps:
  assumes k: "keeps m v call" and f: "frozen m v st"
      and r: "exec_scmd call c st = Some (r, st')"
  shows "frozen m v st' \<and> silent m st st'"
proof (cases c)
  case (SThrow e)
  then show ?thesis using r f by simp
next
  case (Sub s h b)
  then show ?thesis using sub_keeps[OF k f] r by simp
next
  case (Unsub s h)
  then show ?thesis using r f unsub_keeps[OF f, of s "Ext h"]
    by (auto simp add: silent_log split: option.splits)
next
  case (Set s u)
  then show ?thesis using r f Subject_set_keeps[OF k f] ComputedSubject_set_keeps[OF k f]
    by (auto split: option.splits obj.splits)
next
  case (Destroy m')
  then show ?thesis using r f destroy_keeps[OF f, of m']
    by (auto simp add: silent_log split: option.splits obj.splits)
qed

lemma exec_scmds_keeps:
  assumes k: "keeps m v call"
  shows "frozen m v st \<Longrightarrow> exec_scmds call cs st = Some (r, st') \<Longrightarrow>
         frozen m v st' \<and> silent m st st'"
proof (induction cs arbitrary: st)
  case Nil
  then show ?case by simp
next
  case (Cons c cs)
  from Cons.prems(2) obtain r1 st1 where c: "exec_scmd call c st = Some (r1, st1)"
    by (cases "exec_scmd call c st") auto
  from exec_scmd_keeps[OF k Cons.prems(1) c] have f1: "frozen m v st1" and s1: "silent m st st1"
    by simp_all
  show ?case
  proof (cases r1)
    case None
    then have "exec_scmds call cs st1 = Some (r, st')" using Cons.prems(2) c by simp
    from Cons.IH[OF f1 this] s1 silent_trans show ?thesis by blast
  next
    case (Some e)
    then have "st' = st1" using Cons.prems(2) c by simp
    then show ?thesis using f1 s1 by simp
  qed
qed

lemma sinvoke_keeps: "keeps m v (sinvoke n env)"
proof (induction n)
  case 0
  show ?case by (simp add: keeps_def)
next
  case (Suc n)
  show ?case
    unfolding keeps_def
  proof (intro allI impI)
    fix h a st r st'
    assume nb: "\<forall>index. h \<noteq> UpdateValue m index" and f: "frozen m v st"
       and c: "sinvoke (Suc n) env h a st = Some (r, st')"
    show "frozen m v st' \<and> silent m st st'"
    proof (cases h)
      case (Ext k)
      then have "exec_scmds (sinvoke n env) (env k a) st = Some (r, st')" using c by simp
      from exec_scmds_keeps[OF Suc f this] show ?thesis .
    next
      case (UpdateValue m' index)
      then have ne: "m' \<noteq> m" using nb by auto
      have "MappedSubject_updateValue (sinvoke n env) m' index st = Some (r, st')"
        using c UpdateValue by simp
      from updateValue_keeps[OF Suc ne f this] show ?thesis .
    qed
  qed
qed

lemma destroy_then_frozen:
  assumes obj: "objs st m = Some (MappedObj x)" and w: "wired m x st"
      and run: "exec_scmds (sinvoke n env) cmds (MappedSubject_destroy m st) = Some (r, st')"
  shows "(\<exists>x'. objs st' m = Some (MappedObj x') \<and> get (MappedObj x') = get (MappedObj x))
       \<and> (\<exists>evs. log st' = log st @ evs \<and> notified m evs = [])"
proof -
  have f: "frozen m (m_value x) (MappedSubject_destroy m st)"
    using destroy_frozen[OF obj w] .
  from exec_scmds_keeps[OF sinvoke_keeps f run]
  have "frozen m (m_value x) st'" and "silent m (MappedSubject_destroy m st) st'" by simp_all
  then show ?thesis by (auto simp add: frozen_def silent_def)
qed

text \<open>For contrast, the same \<open>set\<close> before \<open>destroy\<close>: the MappedSubject follows its input and
  notifies its subscriber.\<close>

lemma mapped_subject_follows_before_destroy:
  "exec_scmds (sinvoke (Suc (Suc 0)) throwing_env) [Set 1 5] mapped_store =
     Some (None, \<lparr>objs = [1 \<mapsto> SubjectObj (counter\<lparr>subs := [Ext 8, UpdateValue 2 0], s_value := 5\<rparr>),
                          2 \<mapsto> MappedObj (successor\<lparr>inputValues := [5], m_value := 6\<rparr>)],
                  log = [Notified 1 (Ext 8) [5], Notified 1 (UpdateValue 2 0) [5], Notified 2 (Ext 5) [6]]\<rparr>)"
  by (simp add: mapped_store_def successor_def counter_def
        Subject_set_def MappedSubject_updateValue_def notify_def notify_loop_step notify_loop_done
        call_sub_at_def subs_at_def args_at_def record_entry_def throwing_env_def fun_upd_twist Let_def)

section \<open>A MappedSubject from its construction to its destruction\<close>

lemma linked_record [simp]: "linked m ps (record_entry e st) = linked m ps st"
  by (simp add: linked_def wired_def)

lemma linked_update:
  assumes l: "linked m ps st" and o: "objs st s = Some ob"
      and c: "\<forall>index. count_list (subs_of ob') (UpdateValue m index)
                        \<le> count_list (subs_of ob) (UpdateValue m index)"
      and k: "\<forall>x. ob = MappedObj x \<longrightarrow>
                (\<exists>x'. ob' = MappedObj x' \<and> inputs x' = inputs x \<and> inputHandlers x' = inputHandlers x)"
  shows "linked m ps (st\<lparr>objs := (objs st)(s \<mapsto> ob')\<rparr>)"
proof -
  from l obtain x where xm: "objs st m = Some (MappedObj x)" and z: "zip (inputs x) (inputHandlers x) = ps"
      and w: "wired m x st"
    by (auto simp add: linked_def)
  have bound: "\<And>t tb index. objs st t = Some tb \<Longrightarrow>
                 count_list (subs_of tb) (UpdateValue m index) \<le> count_list ps (t, UpdateValue m index)"
    using w z by (auto simp add: wired_def)
  let ?st = "st\<lparr>objs := (objs st)(s \<mapsto> ob')\<rparr>"
  obtain x' where xm': "objs ?st m = Some (MappedObj x')"
      and i': "inputs x' = inputs x" "inputHandlers x' = inputHandlers x"
  proof (cases "s = m")
    case True
    then have "ob = MappedObj x" using o xm by simp
    with k obtain x' where "ob' = MappedObj x'" "inputs x' = inputs x" "inputHandlers x' = inputHandlers x"
      by blast
    then show ?thesis using that[of x'] True by simp
  next
    case False
    then show ?thesis using that[of x] xm by simp
  qed
  have "wired m x' ?st"
    unfolding wired_def i' z
  proof (intro allI impI)
    fix t tb index assume a: "objs ?st t = Some tb"
    show "count_list (subs_of tb) (UpdateValue m index) \<le> count_list ps (t, UpdateValue m index)"
    proof (cases "t = s")
      case True
      then have "tb = ob'" using a by simp
      then show ?thesis using c bound[OF o, of index] True
        by (metis le_trans)
    next
      case False
      then have "objs st t = Some tb" using a by simp
      then show ?thesis using bound by blast
    qed
  qed
  then show ?thesis using xm' i' z by (auto simp add: linked_def)
qed

lemma linked_with_subs:
  assumes l: "linked m ps st" and o: "objs st s = Some ob"
      and c: "\<forall>index. count_list hs (UpdateValue m index) \<le> count_list (subs_of ob) (UpdateValue m index)"
  shows "linked m ps (st\<lparr>objs := (objs st)(s \<mapsto> with_subs hs ob)\<rparr>)"
  using c by (intro linked_update[OF l o]) auto

lemma call_sub_at_preserves:
  assumes k: "preserves m ps call" and l: "linked m ps st"
      and c: "call_sub_at call s i st = Some (r, st1)"
  shows "linked m ps st1"
proof (cases "i < length (subs_at st s)")
  case False
  then show ?thesis using c l by (simp add: call_sub_at_def)
next
  case True
  let ?st0 = "record_entry (Notified s (subs_at st s ! i) (args_at st s)) st"
  have "call (subs_at st s ! i) (args_at st s) ?st0 = Some (r, st1)"
    using c True by (simp add: call_sub_at_def)
  moreover have "linked m ps ?st0" using l by simp
  ultimately show ?thesis using k unfolding preserves_def by blast
qed

lemma notify_loop_preserves:
  assumes k: "preserves m ps call"
  shows "linked m ps st \<Longrightarrow> notify_loop call s i len st = Some st' \<Longrightarrow> linked m ps st'"
proof (induction "len - i" arbitrary: i st)
  case 0
  then show ?case by (simp add: notify_loop_done)
next
  case (Suc n)
  then have lt: "i < len" by simp
  have n: "n = len - Suc i" using Suc.hyps(2) by simp
  from Suc.prems(2) lt obtain r st1 where c: "call_sub_at call s i st = Some (r, st1)"
    by (cases "call_sub_at call s i st") (auto simp add: notify_loop_step)
  from call_sub_at_preserves[OF k Suc.prems(1) c] have l1: "linked m ps st1" .
  define st2 where "st2 = (case r of None \<Rightarrow> st1 | Some e \<Rightarrow> record_entry (ErrorLogged e) st1)"
  have l2: "linked m ps st2" using l1 by (simp add: st2_def split: option.splits)
  have "notify_loop call s (Suc i) len st2 = Some st'"
    using Suc.prems(2) lt c by (simp add: notify_loop_step st2_def split: option.splits)
  from Suc.hyps(1)[OF n l2 this] show ?case .
qed

lemma computed_loop_preserves:
  assumes k: "preserves m ps call"
  shows "linked m ps st \<Longrightarrow> computed_loop call s i len st = Some (r, st') \<Longrightarrow> linked m ps st'"
proof (induction "len - i" arbitrary: i st)
  case 0
  then show ?case by (simp add: computed_loop_done)
next
  case (Suc n)
  then have lt: "i < len" by simp
  have n: "n = len - Suc i" using Suc.hyps(2) by simp
  from Suc.prems(2) lt obtain r1 st1 where c: "call_sub_at call s i st = Some (r1, st1)"
    by (cases "call_sub_at call s i st") (auto simp add: computed_loop_step)
  from call_sub_at_preserves[OF k Suc.prems(1) c] have l1: "linked m ps st1" .
  show ?case
  proof (cases r1)
    case None
    then have "computed_loop call s (Suc i) len st1 = Some (r, st')"
      using Suc.prems(2) lt c by (simp add: computed_loop_step)
    from Suc.hyps(1)[OF n l1 this] show ?thesis .
  next
    case (Some e)
    then have "st' = st1" using Suc.prems(2) lt c by (simp add: computed_loop_step)
    then show ?thesis using l1 by simp
  qed
qed

lemma Subject_set_preserves:
  assumes k: "preserves m ps call" and l: "linked m ps st"
      and r: "Subject_set call s u st = Some (r, st')"
  shows "linked m ps st'"
proof (cases "objs st s")
  case None
  then show ?thesis using r l by (simp add: Subject_set_def)
next
  case (Some ob)
  show ?thesis
  proof (cases ob)
    case (SubjectObj x)
    show ?thesis
    proof (cases "equalityFunc x u (s_value x)")
      case True
      then show ?thesis using r l Some SubjectObj by (simp add: Subject_set_def)
    next
      case False
      define x' where "x' = (case mutateFunc x of
                         Some g \<Rightarrow> x\<lparr>s_value := g (s_value x) u\<rparr>
                       | None \<Rightarrow> x\<lparr>s_value := u\<rparr>)"
      define st1 where "st1 = st\<lparr>objs := (objs st)(s \<mapsto> SubjectObj x')\<rparr>"
      have sx: "subs_of (SubjectObj x') = subs_of ob"
        by (simp add: x'_def SubjectObj split: option.splits)
      have l1: "linked m ps st1"
        unfolding st1_def using sx SubjectObj by (intro linked_update[OF l Some]) simp_all
      have eq: "Subject_set call s u st =
                  (case notify call s st1 of None \<Rightarrow> None | Some st'' \<Rightarrow> Some (None, st''))"
        using Some SubjectObj False by (simp add: Subject_set_def x'_def st1_def)
      from r obtain st2 where n: "notify call s st1 = Some st2" and e: "st' = st2"
        unfolding eq by (cases "notify call s st1") auto
      from notify_loop_preserves[OF k l1 n[unfolded notify_def]] e show ?thesis by simp
    qed
  next
    case (MappedObj x)
    then show ?thesis using r l Some by (simp add: Subject_set_def)
  next
    case (ComputedObj x)
    then show ?thesis using r l Some by (simp add: Subject_set_def)
  qed
qed

lemma ComputedSubject_set_preserves:
  assumes k: "preserves m ps call" and l: "linked m ps st"
      and r: "ComputedSubject_set call s u st = Some (r, st')"
  shows "linked m ps st'"
proof (cases "objs st s")
  case None
  then show ?thesis using r l by (simp add: ComputedSubject_set_def)
next
  case (Some ob)
  show ?thesis
  proof (cases ob)
    case (ComputedObj x)
    show ?thesis
    proof (cases "computeFn x u \<noteq> c_computedValue x")
      case False
      have "linked m ps (st\<lparr>objs := (objs st)(s \<mapsto> ComputedObj (x\<lparr>c_value := u\<rparr>))\<rparr>)"
        using ComputedObj by (intro linked_update[OF l Some]) simp_all
      then show ?thesis using r Some ComputedObj False
        by (auto simp add: ComputedSubject_set_def)
    next
      case True
      define st1 where "st1 = st\<lparr>objs := (objs st)(s \<mapsto> ComputedObj (x\<lparr>c_value := u, c_computedValue := computeFn x u\<rparr>))\<rparr>"
      have l1: "linked m ps st1"
        unfolding st1_def using ComputedObj by (intro linked_update[OF l Some]) simp_all
      have "computed_loop call s 0 (length (subs_at st1 s)) st1 = Some (r, st')"
        using r Some ComputedObj True by (simp add: ComputedSubject_set_def st1_def Let_def)
      from computed_loop_preserves[OF k l1 this] show ?thesis .
    qed
  next
    case (SubjectObj x)
    then show ?thesis using r l Some by (simp add: ComputedSubject_set_def)
  next
    case (MappedObj x)
    then show ?thesis using r l Some by (simp add: ComputedSubject_set_def)
  qed
qed

lemma updateValue_preserves:
  assumes k: "preserves m ps call" and l: "linked m ps st"
      and r: "MappedSubject_updateValue call m' index st = Some (r, st')"
  shows "linked m ps st'"
proof (cases "objs st m'")
  case None
  then show ?thesis using r l by (simp add: MappedSubject_updateValue_def)
next
  case (Some ob)
  show ?thesis
  proof (cases ob)
    case (MappedObj x)
    show ?thesis
    proof (cases "index < length (inputs x)")
      case False
      then show ?thesis using r l Some MappedObj by (simp add: MappedSubject_updateValue_def)
    next
      case True
      show ?thesis
      proof (cases "objs st (inputs x ! index)")
        case None
        then show ?thesis using r l Some MappedObj True by (simp add: MappedSubject_updateValue_def)
      next
        case (Some inp)
        define vals where "vals = (if index < length (inputValues x)
                              then (inputValues x)[index := get inp]
                              else inputValues x @ [get inp])"
        define u where "u = mapFunc x vals (Some (m_value x))"
        define x1 where "x1 = x\<lparr>inputValues := vals\<rparr>"
        show ?thesis
        proof (cases "m_equalityFunc x (m_value x) u")
          case True
          have "st' = st\<lparr>objs := (objs st)(m' \<mapsto> MappedObj x1)\<rparr>"
            using r \<open>objs st m' = Some ob\<close> MappedObj \<open>index < length (inputs x)\<close> Some True
            by (simp add: MappedSubject_updateValue_def Let_def vals_def u_def x1_def)
          moreover have "linked m ps (st\<lparr>objs := (objs st)(m' \<mapsto> MappedObj x1)\<rparr>)"
            using MappedObj by (intro linked_update[OF l \<open>objs st m' = Some ob\<close>]) (simp_all add: x1_def)
          ultimately show ?thesis by simp
        next
          case False
          define x2 where "x2 = (case m_mutateFunc x of
                                    Some g \<Rightarrow> x1\<lparr>m_value := g (m_value x) u\<rparr>
                                  | None \<Rightarrow> x1\<lparr>m_value := u\<rparr>)"
          define st1 where "st1 = st\<lparr>objs := (objs st)(m' \<mapsto> MappedObj x2)\<rparr>"
          have sx: "m_subs x2 = m_subs x" "inputs x2 = inputs x" "inputHandlers x2 = inputHandlers x"
            by (simp_all add: x2_def x1_def split: option.splits)
          have l1: "linked m ps st1"
            unfolding st1_def using MappedObj sx
            by (intro linked_update[OF l \<open>objs st m' = Some ob\<close>]) simp_all
          have eq: "MappedSubject_updateValue call m' index st =
                      (case notify call m' st1 of None \<Rightarrow> None | Some st'' \<Rightarrow> Some (None, st''))"
            using \<open>objs st m' = Some ob\<close> MappedObj \<open>index < length (inputs x)\<close> Some False
            unfolding st1_def x2_def x1_def u_def vals_def
            by (simp add: MappedSubject_updateValue_def Let_def)
          from r obtain st2 where n: "notify call m' st1 = Some st2" and e: "st' = st2"
            unfolding eq by (cases "notify call m' st1") auto
          from notify_loop_preserves[OF k l1 n[unfolded notify_def]] e show ?thesis by simp
        qed
      qed
    qed
  next
    case (SubjectObj x)
    then show ?thesis using r l Some by (simp add: MappedSubject_updateValue_def)
  next
    case (ComputedObj x)
    then show ?thesis using r l Some by (simp add: MappedSubject_updateValue_def)
  qed
qed

lemma unsub_preserves: "linked m ps st \<Longrightarrow> linked m ps (unsub s g st)"
proof (cases "objs st s")
  case None
  then show "linked m ps st \<Longrightarrow> linked m ps (unsub s g st)" by (simp add: unsub_def)
next
  case (Some ob)
  assume l: "linked m ps st"
  have "\<forall>index. count_list (remove1 g (subs_of ob)) (UpdateValue m index)
                  \<le> count_list (subs_of ob) (UpdateValue m index)"
    by (simp add: count_list_remove1)
  from linked_with_subs[OF l Some this] show "linked m ps (unsub s g st)"
    using Some by (simp add: unsub_def)
qed

lemma destroy_loop_preserves: "linked m ps st \<Longrightarrow> linked m ps (destroy_loop qs st)"
  by (induction qs st rule: destroy_loop.induct) (simp_all add: unsub_preserves)

lemma destroy_preserves: "linked m ps st \<Longrightarrow> linked m ps (MappedSubject_destroy m' st)"
  by (simp add: MappedSubject_destroy_def destroy_loop_preserves split: option.splits obj.splits)

lemma sub_preserves:
  assumes k: "preserves m ps call" and l: "linked m ps st"
      and r: "sub call s (Ext h) initialNotify st = Some (r, st')"
  shows "linked m ps st'"
proof (cases "objs st s")
  case None
  then show ?thesis using r l by (simp add: sub_def)
next
  case (Some ob)
  define st1 where "st1 = st\<lparr>objs := (objs st)(s \<mapsto> with_subs (subs_of ob @ [Ext h]) ob)\<rparr>"
  have "\<forall>index. count_list (subs_of ob @ [Ext h]) (UpdateValue m index)
                  \<le> count_list (subs_of ob) (UpdateValue m index)"
    by simp
  from linked_with_subs[OF l Some this] have l1: "linked m ps st1" by (simp add: st1_def)
  show ?thesis
  proof (cases initialNotify)
    case False
    then show ?thesis using r Some l1 by (simp add: sub_def st1_def)
  next
    case True
    have "call (Ext h) (args_of ob) (record_entry (InitialNotify s (Ext h) (args_of ob)) st1) = Some (r, st')"
      using r Some True by (simp add: sub_def st1_def)
    moreover have "linked m ps (record_entry (InitialNotify s (Ext h) (args_of ob)) st1)"
      using l1 by simp
    ultimately show ?thesis using k unfolding preserves_def by blast
  qed
qed

lemma exec_scmd_preserves:
  assumes k: "preserves m ps call" and l: "linked m ps st"
      and r: "exec_scmd call c st = Some (r, st')"
  shows "linked m ps st'"
proof (cases c)
  case (SThrow e)
  then show ?thesis using r l by simp
next
  case (Sub s h b)
  then show ?thesis using sub_preserves[OF k l] r by simp
next
  case (Unsub s h)
  then show ?thesis using r l unsub_preserves[OF l, of s "Ext h"]
    by (auto split: option.splits)
next
  case (Set s u)
  then show ?thesis using r l Subject_set_preserves[OF k l] ComputedSubject_set_preserves[OF k l]
    by (auto split: option.splits obj.splits)
next
  case (Destroy m')
  then show ?thesis using r l destroy_preserves[OF l, of m']
    by (auto split: option.splits obj.splits)
qed

lemma exec_scmds_preserves:
  assumes k: "preserves m ps call"
  shows "linked m ps st \<Longrightarrow> exec_scmds call cs st = Some (r, st') \<Longrightarrow> linked m ps st'"
proof (induction cs arbitrary: st)
  case Nil
  then show ?case by simp
next
  case (Cons c cs)
  from Cons.prems(2) obtain r1 st1 where c: "exec_scmd call c st = Some (r1, st1)"
    by (cases "exec_scmd call c st") auto
  from exec_scmd_preserves[OF k Cons.prems(1) c] have l1: "linked m ps st1" .
  show ?case
  proof (cases r1)
    case None
    then have "exec_scmds call cs st1 = Some (r, st')" using Cons.prems(2) c by simp
    from Cons.IH[OF l1 this] show ?thesis .
  next
    case (Some e)
    then have "st' = st1" using Cons.prems(2) c by simp
    then show ?thesis using l1 by simp
  qed
qed

lemma sinvoke_preserves: "preserves m ps (sinvoke n env)"
proof (induction n)
  case 0
  show ?case by (simp add: preserves_def)
next
  case (Suc n)
  show ?case
    unfolding preserves_def
  proof (intro allI impI)
    fix h a st r st'
    assume l: "linked m ps st" and c: "sinvoke (Suc n) env h a st = Some (r, st')"
    show "linked m ps st'"
    proof (cases h)
      case (Ext k)
      then have "exec_scmds (sinvoke n env) (env k a) st = Some (r, st')" using c by simp
      from exec_scmds_preserves[OF Suc l this] show ?thesis .
    next
      case (UpdateValue m' index)
      then have "MappedSubject_updateValue (sinvoke n env) m' index st = Some (r, st')"
        using c by simp
      from updateValue_preserves[OF Suc l this] show ?thesis .
    qed
  qed
qed

lemma subscribe_loop_count:
  "objs (subscribe_loop ps st) s = Some ob' \<Longrightarrow>
   \<exists>ob. objs st s = Some ob
      \<and> count_list (subs_of ob') h = count_list (subs_of ob) h + count_list ps (s, h)
      \<and> (\<forall>x. ob = MappedObj x \<longrightarrow>
            (\<exists>x'. ob' = MappedObj x' \<and> inputs x' = inputs x \<and> inputHandlers x' = inputHandlers x))"
proof (induction ps arbitrary: st)
  case Nil
  then show ?case by simp
next
  case (Cons p ps)
  obtain inp g where p: "p = (inp, g)" by (cases p)
  define st1 where "st1 = (case objs st inp of
          None \<Rightarrow> st
        | Some ob \<Rightarrow> st\<lparr>objs := (objs st)(inp \<mapsto> with_subs (subs_of ob @ [g]) ob)\<rparr>)"
  have "objs (subscribe_loop ps st1) s = Some ob'" using Cons.prems by (simp add: p st1_def)
  from Cons.IH[OF this] obtain ob1 where o1: "objs st1 s = Some ob1"
      and c1: "count_list (subs_of ob') h = count_list (subs_of ob1) h + count_list ps (s, h)"
      and k1: "\<forall>x. ob1 = MappedObj x \<longrightarrow>
            (\<exists>x'. ob' = MappedObj x' \<and> inputs x' = inputs x \<and> inputHandlers x' = inputHandlers x)"
    by blast
  show ?case
  proof (cases "objs st inp")
    case None
    then have "st1 = st" by (simp add: st1_def)
    moreover have "s \<noteq> inp" using o1 None \<open>st1 = st\<close> by auto
    ultimately show ?thesis using o1 c1 k1 p by auto
  next
    case (Some obi)
    show ?thesis
    proof (cases "s = inp")
      case True
      then have "ob1 = with_subs (subs_of obi @ [g]) obi" using o1 Some by (simp add: st1_def)
      then show ?thesis using True Some c1 k1 p by (cases obi) auto
    next
      case False
      then have "objs st s = Some ob1" using o1 Some by (simp add: st1_def)
      then show ?thesis using False c1 k1 p by auto
    qed
  qed
qed

lemma subscribe_loop_dom:
  "objs (subscribe_loop ps st) s = None \<longleftrightarrow> objs st s = None"
  by (induction ps st rule: subscribe_loop.induct) (auto split: option.splits)

lemma MappedSubject_new_linked:
  assumes u: "unused m st" and n: "MappedSubject_new truthy m f e mu iv ins st = Inr st'"
  shows "linked m (zip ins (map (UpdateValue m) [0 ..< length ins])) st'"
proof -
  define hs where "hs = map (UpdateValue m) [0 ..< length ins]"
  from n obtain x where st': "st' = subscribe_loop (zip ins hs) (st\<lparr>objs := (objs st)(m \<mapsto> MappedObj x)\<rparr>)"
      and x: "m_subs x = []" "inputs x = ins" "inputHandlers x = hs"
    by (auto simp add: MappedSubject_new_def Let_def hs_def split: if_splits option.splits)
  let ?st0 = "st\<lparr>objs := (objs st)(m \<mapsto> MappedObj x)\<rparr>"
  have zero: "\<And>s ob index. objs ?st0 s = Some ob \<Longrightarrow> count_list (subs_of ob) (UpdateValue m index) = 0"
  proof -
    fix s ob index assume a: "objs ?st0 s = Some ob"
    show "count_list (subs_of ob) (UpdateValue m index) = 0"
    proof (cases "s = m")
      case True
      then show ?thesis using a x by auto
    next
      case False
      then have "objs st s = Some ob" using a by simp
      then show ?thesis using u by (auto simp add: unused_def detached_def count_list_0_iff)
    qed
  qed
  obtain ob' where om: "objs st' m = Some ob'"
    using subscribe_loop_dom[of "zip ins hs" ?st0 m] st' by (cases "objs st' m") auto
  from subscribe_loop_count[OF om[unfolded st'], of "UpdateValue m 0"]
  obtain x' where x': "ob' = MappedObj x'" "inputs x' = ins" "inputHandlers x' = hs"
    using x by auto
  have "wired m x' st'"
    unfolding wired_def x'
  proof (intro allI impI)
    fix s ob index assume a: "objs st' s = Some ob"
    from subscribe_loop_count[OF a[unfolded st'], of "UpdateValue m index"] zero
    show "count_list (subs_of ob) (UpdateValue m index) \<le> count_list (zip ins hs) (s, UpdateValue m index)"
      by fastforce
  qed
  then show ?thesis using om x' by (auto simp add: linked_def hs_def)
qed

text \<open>
  C9. After \<open>destroy()\<close> of a MappedSubject, whatever is done next (values set on its inputs
  or on any other subscribable, by the program or by subscribers reacting to that, with
  subscribing and unsubscribing) leaves the value it holds as it was, and its notification
  loop calls none of its subscribers; \<open>get()\<close> still returns the last value computed before
  \<open>destroy\<close>. The MappedSubject is made by its constructor at a reference not in use, and
  anything may have been done between its construction and \<open>destroy\<close>.
\<close>

theorem destroyed_mapped_subject_is_frozen:
  assumes fresh: "unused m st0"
      and made: "MappedSubject_new truthy m f e mu iv ins st0 = Inr st1"
      and life: "exec_scmds (sinvoke n env) cmds st1 = Some (r, st2)"
      and after: "exec_scmds (sinvoke n' env') cmds' (MappedSubject_destroy m st2) = Some (r', st3)"
  shows "\<exists>x2 x3. objs st2 m = Some (MappedObj x2) \<and> objs st3 m = Some (MappedObj x3)
           \<and> get (MappedObj x3) = get (MappedObj x2)
           \<and> (\<exists>evs. log st3 = log st2 @ evs \<and> notified m evs = [])"
proof -
  let ?ps = "zip ins (map (UpdateValue m) [0 ..< length ins])"
  have "linked m ?ps st1" using MappedSubject_new_linked[OF fresh made] .
  from exec_scmds_preserves[OF sinvoke_preserves this life] have "linked m ?ps st2" .
  then obtain x2 where o2: "objs st2 m = Some (MappedObj x2)" and w2: "wired m x2 st2"
    by (auto simp add: linked_def)
  from destroy_then_frozen[OF o2 w2 after] o2 show ?thesis by auto
qed

theorem destroyed_mapped_subject_is_frozen_witness:
  "\<exists>st1 st2 st3 x2 x3.
      MappedSubject_new (\<lambda>v. v \<noteq> 0) 2 (\<lambda>vals prev. sum_list vals + 1) (=) None None [1] plain_store = Inr st1
    \<and> exec_scmds (sinvoke (Suc (Suc 0)) throwing_env) [Sub 2 5 False, Set 1 3] st1 = Some (None, st2)
    \<and> exec_scmds (sinvoke (Suc (Suc 0)) throwing_env) [Set 1 5] (MappedSubject_destroy 2 st2) = Some (None, st3)
    \<and> objs st2 2 = Some (MappedObj x2) \<and> get (MappedObj x2) = 4
    \<and> objs st3 2 = Some (MappedObj x3) \<and> get (MappedObj x3) = 4
    \<and> log st2 = [Notified 1 (Ext 8) [3], Notified 1 (UpdateValue 2 0) [3], Notified 2 (Ext 5) [4]]
    \<and> log st3 = log st2 @ [Notified 1 (Ext 8) [5]]"
proof -
  define s1 :: "int store" where "s1 =
     \<lparr>objs = [1 \<mapsto> SubjectObj (counter\<lparr>subs := [Ext 8, UpdateValue 2 0]\<rparr>),
              2 \<mapsto> MappedObj (successor\<lparr>m_subs := []\<rparr>)],
      log = []\<rparr>"
  define s2 :: "int store" where "s2 =
     \<lparr>objs = [1 \<mapsto> SubjectObj (counter\<lparr>subs := [Ext 8, UpdateValue 2 0], s_value := 3\<rparr>),
              2 \<mapsto> MappedObj (successor\<lparr>inputValues := [3], m_value := 4\<rparr>)],
      log = [Notified 1 (Ext 8) [3], Notified 1 (UpdateValue 2 0) [3], Notified 2 (Ext 5) [4]]\<rparr>"
  define s3 :: "int store" where "s3 =
     \<lparr>objs = [1 \<mapsto> SubjectObj (counter\<lparr>subs := [Ext 8], s_value := 5\<rparr>),
              2 \<mapsto> MappedObj (successor\<lparr>inputValues := [3], m_value := 4\<rparr>)],
      log = [Notified 1 (Ext 8) [3], Notified 1 (UpdateValue 2 0) [3], Notified 2 (Ext 5) [4],
             Notified 1 (Ext 8) [5]]\<rparr>"
  have fresh: "unused 2 plain_store"
    by (auto simp add: unused_def detached_def plain_store_def counter_def split: if_splits)
  have made: "MappedSubject_new (\<lambda>v. v \<noteq> 0) 2 (\<lambda>vals prev. sum_list vals + 1) (=) None None [1] plain_store = Inr s1"
    by (simp add: MappedSubject_new_def plain_store_def s1_def successor_def counter_def Let_def
          fun_upd_twist)
  have life: "exec_scmds (sinvoke (Suc (Suc 0)) throwing_env) [Sub 2 5 False, Set 1 3] s1 = Some (None, s2)"
    by (simp add: s1_def s2_def successor_def counter_def sub_def
          Subject_set_def MappedSubject_updateValue_def notify_def notify_loop_step notify_loop_done
          call_sub_at_def subs_at_def args_at_def record_entry_def throwing_env_def fun_upd_twist Let_def)
  have after: "exec_scmds (sinvoke (Suc (Suc 0)) throwing_env) [Set 1 5] (MappedSubject_destroy 2 s2) = Some (None, s3)"
    by (simp add: s2_def s3_def successor_def counter_def MappedSubject_destroy_def unsub_def
          Subject_set_def notify_def notify_loop_step notify_loop_done
          call_sub_at_def subs_at_def args_at_def record_entry_def throwing_env_def fun_upd_twist Let_def)
  from destroyed_mapped_subject_is_frozen[OF fresh made life after]
  obtain x2 x3 where "objs s2 2 = Some (MappedObj x2)" "objs s3 2 = Some (MappedObj x3)"
      "get (MappedObj x3) = get (MappedObj x2)"
    by blast
  moreover from this have "get (MappedObj x2) = 4" by (auto simp add: s2_def successor_def)
  moreover have "log s2 = [Notified 1 (Ext 8) [3], Notified 1 (UpdateValue 2 0) [3], Notified 2 (Ext 5) [4]]"
      "log s3 = log s2 @ [Notified 1 (Ext 8) [5]]"
    by (simp_all add: s2_def s3_def)
  ultimately show ?thesis using made life after by (intro exI[of _ s1] exI[of _ s2] exI[of _ s3] exI[of _ x2] exI[of _ x3]) simp
qed

end
